theory Spec2Isabelle
  imports Main
begin

section \<open>Port resolver\<close>

text \<open>
  The listen target is computed once, at module load, by
  \<^verbatim>\<open>const port = normalizePort(process.env.PORT || '5051')\<close>.

  A JavaScript string is a sequence of 16-bit code units, given here as a list of
  natural numbers; \<^term>\<open>str ''abc''\<close> is the string of an ASCII literal.
\<close>

type_synonym jsstring = "nat list"

definition str :: "string \<Rightarrow> jsstring" where
  "str s = map of_char s"

text \<open>
  The numbers that \<^verbatim>\<open>parseInt\<close> can return: NaN, the two infinities, and a double
  whose value is an integer, given by that integer. \<^verbatim>\<open>-0\<close> and \<^verbatim>\<open>0\<close>, which
  \<^verbatim>\<open>>=\<close> and \<^verbatim>\<open>===\<close> do not tell apart, are both \<^term>\<open>Finite 0\<close>.
\<close>

datatype number = NaN | Finite int | PosInfinity | NegInfinity

text \<open>
  \<^verbatim>\<open>normalizePort\<close> returns one of three kinds of value: a number, the string it was
  given, or \<^verbatim>\<open>false\<close>. The constructors are named after the tags of the
  specification.
\<close>

datatype port_value =
    NumericPort number     \<comment> \<open>\<^verbatim>\<open>return port\<close>: a number\<close>
  | NamedPipe jsstring     \<comment> \<open>\<^verbatim>\<open>return val\<close>: the string that was passed in\<close>
  | Invalid                \<comment> \<open>\<^verbatim>\<open>return false\<close>\<close>

text \<open>
  \<^verbatim>\<open>parseInt\<close> is a built-in of the language, not code of the repository. It is modelled
  from the ECMAScript definition of \<^verbatim>\<open>parseInt(string, radix)\<close> at radix 10, the only
  radix the program uses: strip leading white space (the code units of
  \<^verbatim>\<open>WhiteSpace\<close> and \<^verbatim>\<open>LineTerminator\<close>), read an optional sign, take the longest
  prefix of decimal digits, return NaN when that prefix is empty, and otherwise the
  Number value of the signed integer that the digits denote.
\<close>

definition isWhiteSpace :: "nat \<Rightarrow> bool" where
  "isWhiteSpace c \<longleftrightarrow>
     c \<in> {9, 10, 11, 12, 13, 32, 160, 5760, 8232, 8233, 8239, 8287, 12288, 65279} \<or>
     (8192 \<le> c \<and> c \<le> 8202)"

definition isDigit :: "nat \<Rightarrow> bool" where
  "isDigit c \<longleftrightarrow> 48 \<le> c \<and> c \<le> 57"

definition digitValue :: "nat \<Rightarrow> int" where
  "digitValue c = int c - 48"

text \<open>The value of a digit string in positional notation, most significant digit first.\<close>

fun decimal :: "jsstring \<Rightarrow> int" where
  "decimal [] = 0"
| "decimal (c # cs) = digitValue c * 10 ^ length cs + decimal cs"

text \<open>The sign is \<^verbatim>\<open>-\<close> (code unit 45) or an optional \<^verbatim>\<open>+\<close> (code unit 43).\<close>

fun signOf :: "jsstring \<Rightarrow> int" where
  "signOf [] = 1"
| "signOf (c # cs) = (if c = 45 then - 1 else 1)"

fun dropSign :: "jsstring \<Rightarrow> jsstring" where
  "dropSign [] = []"
| "dropSign (c # cs) = (if c = 43 \<or> c = 45 then cs else c # cs)"

text \<open>The mathematical integer of the definition, \<open>sign \<times> mathInt\<close>, before it is made a Number.\<close>

definition mathInt10 :: "jsstring \<Rightarrow> int option" where
  "mathInt10 val =
     (let S = dropWhile isWhiteSpace val;
          Z = takeWhile isDigit (dropSign S)
      in if Z = [] then None else Some (signOf S * decimal Z))"

text \<open>
  The Number value of an integer is the double nearest to it, ties going to the even
  significand, and an infinity beyond the range of doubles. An integer of at most 53
  bits is its own double. A longer one keeps its 53 leading bits \<open>q\<close>, rounded by the
  \<open>k\<close> bits \<open>r\<close> that are cut off; from \<open>2 ^ 1024\<close> on the result is infinite.
  (The definition lets an implementation approximate digits after the twentieth;
  the engine of Node.js does not, and neither does this model.)
\<close>

function bitLength :: "int \<Rightarrow> nat" where
  "bitLength n = (if n \<le> 0 then 0 else Suc (bitLength (n div 2)))"
  by pat_completeness auto
termination
  by (relation "measure nat") auto

declare bitLength.simps [simp del]

definition roundToDouble :: "int \<Rightarrow> int option" where
  "roundToDouble m =
     (if m \<le> 2 ^ 53 then Some m
      else let k = bitLength m - 53;
               q = m div 2 ^ k;
               r = m mod 2 ^ k;
               q' = (if 2 ^ k < 2 * r \<or> (2 * r = 2 ^ k \<and> odd q) then q + 1 else q)
           in if 2 ^ 1024 \<le> q' * 2 ^ k then None else Some (q' * 2 ^ k))"

definition toNumber :: "int \<Rightarrow> number" where
  "toNumber n =
     (case roundToDouble \<bar>n\<bar> of
        None \<Rightarrow> if n < 0 then NegInfinity else PosInfinity
      | Some v \<Rightarrow> Finite (if n < 0 then - v else v))"

definition parseInt10 :: "jsstring \<Rightarrow> number" where
  "parseInt10 val = (case mathInt10 val of None \<Rightarrow> NaN | Some n \<Rightarrow> toNumber n)"

text \<open>\<^verbatim>\<open>isNaN(port)\<close> and \<^verbatim>\<open>port >= 0\<close>.\<close>

definition isNaN :: "number \<Rightarrow> bool" where
  "isNaN x \<longleftrightarrow> x = NaN"

fun geZero :: "number \<Rightarrow> bool" where
  "geZero NaN = False"
| "geZero (Finite n) = (n \<ge> 0)"
| "geZero PosInfinity = True"
| "geZero NegInfinity = False"

text \<open>
  \<^verbatim>\<open>
  function normalizePort(val: any) {
    const port = parseInt(val, 10)
    if (isNaN(port)) return val      // named pipe
    if (port >= 0) return port       // port number
    return false
  }
  \<close>
\<close>

definition normalizePort :: "jsstring \<Rightarrow> port_value" where
  "normalizePort val =
     (let port = parseInt10 val
      in if isNaN port then NamedPipe val
         else if geZero port then NumericPort port
         else Invalid)"

text \<open>
  \<^verbatim>\<open>process.env.PORT || '5051'\<close>: an unset variable and the empty string are both
  falsy and give the default.
\<close>

definition configuredPort :: "jsstring option \<Rightarrow> jsstring" where
  "configuredPort env =
     (case env of None \<Rightarrow> str ''5051'' | Some s \<Rightarrow> if s = [] then str ''5051'' else s)"

text \<open>
  What the specification means by a string that parses as a base-10 integer, written
  as a grammar and independently of the scanning functions above: white space, an
  optional sign, a non-empty run of digits that is not continued by a further digit,
  and then anything.
\<close>

definition parsesAs :: "jsstring \<Rightarrow> int \<Rightarrow> bool" where
  "parsesAs s n \<longleftrightarrow>
     (\<exists>ws sg ds rest.
        s = ws @ sg @ ds @ rest \<and>
        (\<forall>c \<in> set ws. isWhiteSpace c) \<and>
        (sg = [] \<or> sg = str ''+'' \<or> sg = str ''-'') \<and>
        ds \<noteq> [] \<and> (\<forall>c \<in> set ds. isDigit c) \<and>
        (rest = [] \<or> \<not> isDigit (hd rest)) \<and>
        n = (if sg = str ''-'' then - 1 else 1) * decimal ds)"

section \<open>Process lifecycle\<close>

text \<open>
  The rest of \<^verbatim>\<open>www.ts\<close> is event-driven: it registers callbacks and the runtime
  calls them. Each callback, and each stretch of an \<^verbatim>\<open>async\<close> function between two
  \<^verbatim>\<open>await\<close>s, runs to completion before the runtime dispatches anything else. The
  model gives every such stretch as the list of effects it performs, in program
  order, and an event loop that appends these lists to a trace.

  What the runtime and the other modules do is assumed, not derived: calls into them
  (\<^verbatim>\<open>require\<close>, the logger, \<^verbatim>\<open>app.set\<close>, \<^verbatim>\<open>http.createServer\<close>,
  \<^verbatim>\<open>process.on\<close>, \<^verbatim>\<open>server.on\<close>, \<^verbatim>\<open>server.close\<close>) return normally;
  \<^verbatim>\<open>process.exit\<close> ends the process; a callback given to \<^verbatim>\<open>server.close\<close> is
  called when the listener has closed; an error thrown out of a callback reaches the
  \<^verbatim>\<open>uncaughtException\<close> listener; a rejection of the main function's promise, which
  nothing handles, reaches the \<^verbatim>\<open>unhandledRejection\<close> listener; and the values
  thrown or rejected are error objects, as the handlers' parameter types say. An
  event for which the program has registered no listener leaves the model's state as
  it is: the runtime's own default for it is not part of the program.

  \<^verbatim>\<open>server.listen(port)\<close> either returns or throws at once, and which of the two is the
  runtime's choice: it arrives with the event that resumes the main function. The
  runtime throws for a port it does not accept; \<open>listenRejects\<close> below names the ports
  for which it always does. An event that the runtime cannot produce (a return of
  \<^verbatim>\<open>server.listen\<close> for such a port, the settlement of a promise that nobody
  awaits) leaves the state as it is, too.
\<close>

record jserror =
  syscall :: "string option"
  code :: "string option"
  stack :: "string option"

datatype outcome = Fulfilled | Rejected jserror

datatype hook =
    OnUncaughtException     \<comment> \<open>\<^verbatim>\<open>process.on('uncaughtException', ...)\<close>\<close>
  | OnUnhandledRejection    \<comment> \<open>\<^verbatim>\<open>process.on('unhandledRejection', ...)\<close>\<close>
  | OnSIGINT                \<comment> \<open>\<^verbatim>\<open>process.on('SIGINT', ...)\<close>\<close>
  | OnAppError              \<comment> \<open>\<^verbatim>\<open>app.on('error', ...)\<close>\<close>
  | OnServerError           \<comment> \<open>\<^verbatim>\<open>server.on('error', onError)\<close>\<close>
  | OnServerListening       \<comment> \<open>\<^verbatim>\<open>server.on('listening', onListening)\<close>\<close>

datatype level = LError | LWarn | LInfo

text \<open>\<^verbatim>\<open>typeof port === 'string' ? 'Pipe ' + port : 'Port ' + port\<close>\<close>

datatype bind = Pipe jsstring | Port port_value

fun bindOf :: "port_value \<Rightarrow> bind" where
  "bindOf (NamedPipe p) = Pipe p"
| "bindOf (NumericPort n) = Port (NumericPort n)"
| "bindOf Invalid = Port Invalid"

text \<open>One constructor for each logging call of the file, with the values it is given.\<close>

datatype message =
    UncaughtBanner                     \<comment> \<open>\<^verbatim>\<open>'UNCAUGHT EXCEPTION! Shutting down..'\<close>\<close>
  | UncaughtErr jserror                \<comment> \<open>\<^verbatim>\<open>'uncaughtException Err::', uncaughtExc\<close>\<close>
  | UncaughtStack "string option"      \<comment> \<open>\<^verbatim>\<open>'uncaughtException Stack::', JSON.stringify(uncaughtExc.stack)\<close>\<close>
  | TryingToConnect                    \<comment> \<open>\<^verbatim>\<open>'Trying to connect MYSQL'\<close>\<close>
  | ConnectionEstablished              \<comment> \<open>\<^verbatim>\<open>'Connection has been established with MYSQL.'\<close>\<close>
  | ErrorWhileConnecting jserror       \<comment> \<open>\<^verbatim>\<open>'Error while connecting MYSQL', error\<close>\<close>
  | TryingToDisconnect                 \<comment> \<open>\<^verbatim>\<open>'Trying to disconnect MYSQL'\<close>\<close>
  | ConnectionClosed                   \<comment> \<open>\<^verbatim>\<open>'Connection has been closed with MYSQL.'\<close>\<close>
  | ErrorWhileDisconnecting jserror    \<comment> \<open>\<^verbatim>\<open>'Error while disconnecting MYSQL', error\<close>\<close>
  | RejectionBanner                    \<comment> \<open>\<^verbatim>\<open>'UNHANDLED REJECTION! Shutting down...'\<close>\<close>
  | RejectionErr jserror               \<comment> \<open>\<^verbatim>\<open>'unhandledRejection Err::', unhandledRejection\<close>\<close>
  | RejectionStack "string option"     \<comment> \<open>\<^verbatim>\<open>'unhandledRejection Stack::', JSON.stringify(unhandledRejection.stack)\<close>\<close>
  | SigintReceived                     \<comment> \<open>\<^verbatim>\<open>'SIGINT RECEIVED. Shutting down gracefully'\<close>\<close>
  | ProcessTerminated                  \<comment> \<open>\<^verbatim>\<open>'Process terminated!'\<close>\<close>
  | RequiresElevatedPrivileges bind    \<comment> \<open>\<^verbatim>\<open>`${bind} requires elevated privileges`\<close>\<close>
  | AlreadyInUse bind                  \<comment> \<open>\<^verbatim>\<open>`${bind} is already in use`\<close>\<close>
  | ListeningOn port_value             \<comment> \<open>\<^verbatim>\<open>`Listening on ${port}`\<close>\<close>

datatype action =
    Require string             \<comment> \<open>\<^verbatim>\<open>require(...)\<close>\<close>
  | Log level message          \<comment> \<open>\<^verbatim>\<open>logger.error\<close>, \<^verbatim>\<open>logger.log('warn', ...)\<close>, \<^verbatim>\<open>logger.info\<close>\<close>
  | ConsoleError jserror       \<comment> \<open>\<^verbatim>\<open>console.error(uncaughtExc)\<close>\<close>
  | Debug port_value           \<comment> \<open>\<^verbatim>\<open>debug('Listening on ' + port)\<close>\<close>
  | On hook                    \<comment> \<open>registration of a listener\<close>
  | DbConnect                  \<comment> \<open>\<^verbatim>\<open>db.$connect()\<close> is called\<close>
  | DbDisconnect               \<comment> \<open>\<^verbatim>\<open>db.$disconnect()\<close> is called\<close>
  | AppSetPort port_value      \<comment> \<open>\<^verbatim>\<open>app.set('port', port)\<close>\<close>
  | CreateServer               \<comment> \<open>\<^verbatim>\<open>http.createServer(app)\<close>\<close>
  | ServerListen port_value    \<comment> \<open>\<^verbatim>\<open>server.listen(port)\<close>\<close>
  | ServerClose                \<comment> \<open>\<^verbatim>\<open>server.close(callback)\<close> is called\<close>
  | Exit int                   \<comment> \<open>\<^verbatim>\<open>process.exit(code)\<close>\<close>
  | MainRejects jserror        \<comment> \<open>the main function ends by an error: its promise rejects\<close>

text \<open>How a synchronous callback ends.\<close>

datatype completion = Returns | Exits int | Throws jserror

text \<open>
  \<^verbatim>\<open>
  function onError(error: any) {
    if (error.syscall !== 'listen') throw error
    const bind = typeof port === 'string' ? 'Pipe ' + port : 'Port ' + port
    switch (error.code) {
      case 'EACCES':
        logger.error(`${bind} requires elevated privileges`)
        process.exit(1)
      case 'EADDRINUSE':
        logger.error(`${bind} is already in use`)
        process.exit(1)
      default:
        throw error
    }
  }
  \<close>
  An attribute that is not a string (\<^const>\<open>None\<close>) is not \<^verbatim>\<open>===\<close> to any literal.
\<close>

definition onError :: "port_value \<Rightarrow> jserror \<Rightarrow> action list \<times> completion" where
  "onError port error =
     (if syscall error \<noteq> Some ''listen'' then ([], Throws error)
      else if code error = Some ''EACCES'' then
        ([Log LError (RequiresElevatedPrivileges (bindOf port)), Exit 1], Exits 1)
      else if code error = Some ''EADDRINUSE'' then
        ([Log LError (AlreadyInUse (bindOf port)), Exit 1], Exits 1)
      else ([], Throws error))"

definition onListening :: "port_value \<Rightarrow> action list \<times> completion" where
  "onListening port = ([Log LInfo (ListeningOn port), Debug port], Returns)"

text \<open>The listener of \<^verbatim>\<open>uncaughtException\<close> (lines 51 to 58).\<close>

definition uncaughtExceptionHandler :: "jserror \<Rightarrow> action list \<times> completion" where
  "uncaughtExceptionHandler uncaughtExc =
     ([Log LError UncaughtBanner,
       Log LError (UncaughtErr uncaughtExc),
       Log LError (UncaughtStack (stack uncaughtExc)),
       ConsoleError uncaughtExc,
       Exit 1], Exits 1)"

text \<open>
  The module's top level up to the call of the \<^verbatim>\<open>async\<close> function, and that function
  up to \<^verbatim>\<open>await db.$connect()\<close>.
\<close>

definition moduleTop :: "action list" where
  "moduleTop =
     [Require ''dotenv'', Require ''debug'', Require ''http'', Require ''../helpers/logger'',
      On OnUncaughtException]"

definition mainBegin :: "action list" where
  "mainBegin =
     [Require ''../app'', Require ''../services/prisma'', Log LWarn TryingToConnect, DbConnect]"

text \<open>
  The function from the settlement of \<^verbatim>\<open>db.$connect()\<close> to its end: the \<^verbatim>\<open>try\<close>
  block's last statement or its \<^verbatim>\<open>catch\<close>, then lines 76 to 126. \<open>l\<close> is what
  \<^verbatim>\<open>server.listen(port)\<close> on line 124 does: \<^const>\<open>None\<close> when it returns, the error
  when it throws. Then lines 125 and 126 do not run, and the function's promise
  rejects with the error.
\<close>

definition mainResume :: "port_value \<Rightarrow> outcome \<Rightarrow> jserror option \<Rightarrow> action list" where
  "mainResume port r l =
     (case r of
        Fulfilled \<Rightarrow> [Log LInfo ConnectionEstablished]
      | Rejected error \<Rightarrow> [Log LError (ErrorWhileConnecting error)]) @
     [Require ''../initialize/index'',
      AppSetPort port,
      On OnAppError,
      CreateServer,
      On OnUnhandledRejection,
      On OnSIGINT,
      ServerListen port] @
     (case l of
        None \<Rightarrow> [On OnServerError, On OnServerListening]
      | Some error \<Rightarrow> [MainRejects error])"

text \<open>
  Ports for which \<^verbatim>\<open>server.listen\<close> always throws: \<^verbatim>\<open>false\<close>, and a number
  that is not an integer from 0 to 65535. (For a string the runtime decides by its
  own conversion of the string to a number, which is not modelled: the call may
  return or throw.)
\<close>

fun listenRejects :: "port_value \<Rightarrow> bool" where
  "listenRejects Invalid = True"
| "listenRejects (NumericPort (Finite n)) = (n < 0 \<or> 65535 < n)"
| "listenRejects (NumericPort _) = True"
| "listenRejects (NamedPipe _) = False"

text \<open>\<^verbatim>\<open>closeAllExternalServices\<close>, before and after \<^verbatim>\<open>await db.$disconnect()\<close>.\<close>

definition closeAllExternalServicesBegin :: "action list" where
  "closeAllExternalServicesBegin = [Log LWarn TryingToDisconnect, DbDisconnect]"

definition closeAllExternalServicesResume :: "outcome \<Rightarrow> action list" where
  "closeAllExternalServicesResume r =
     (case r of
        Fulfilled \<Rightarrow> [Log LInfo ConnectionClosed]
      | Rejected error \<Rightarrow> [Log LError (ErrorWhileDisconnecting error)])"

text \<open>
  The two \<^verbatim>\<open>async\<close> listeners, each in two parts around
  \<^verbatim>\<open>await closeAllExternalServices()\<close>, and the exit code of the callback each one
  passes to \<^verbatim>\<open>server.close\<close>: \<^verbatim>\<open>() => process.exit(1)\<close> on line 112 and
  \<^verbatim>\<open>() => process.exit(0)\<close> on line 120.
\<close>

datatype trigger = Rejection | Interrupt

definition unhandledRejectionBegin :: "jserror \<Rightarrow> action list" where
  "unhandledRejectionBegin unhandledRejection =
     [Log LWarn RejectionBanner,
      Log LError (RejectionErr unhandledRejection),
      Log LError (RejectionStack (stack unhandledRejection))] @
     closeAllExternalServicesBegin"

definition sigintBegin :: "action list" where
  "sigintBegin = [Log LWarn SigintReceived] @ closeAllExternalServicesBegin"

fun resume :: "trigger \<Rightarrow> outcome \<Rightarrow> action list" where
  "resume Rejection r = closeAllExternalServicesResume r @ [ServerClose]"
| "resume Interrupt r =
     closeAllExternalServicesResume r @ [Log LWarn ProcessTerminated, ServerClose]"

fun exitCode :: "trigger \<Rightarrow> int" where
  "exitCode Rejection = 1"
| "exitCode Interrupt = 0"

subsection \<open>The event loop\<close>

record process =
  port :: port_value
  trace :: "action list"
  connecting :: bool              \<comment> \<open>the main function is suspended at \<^verbatim>\<open>await db.$connect()\<close>\<close>
  suspended :: "trigger list"     \<comment> \<open>listener calls suspended at \<^verbatim>\<open>await closeAllExternalServices()\<close>\<close>
  closeCallbacks :: "int list"    \<comment> \<open>exit codes of the callbacks given to \<^verbatim>\<open>server.close\<close>\<close>
  exited :: "int option"

datatype event =
    ConnectSettled outcome "jserror option"
      \<comment> \<open>the promise of \<^verbatim>\<open>db.$connect()\<close> settles; what \<^verbatim>\<open>server.listen\<close> will do\<close>
  | DisconnectSettled nat outcome      \<comment> \<open>the promise of the i-th suspended call settles\<close>
  | ListenerClosed                     \<comment> \<open>the listener has closed\<close>
  | Sigint
  | UnhandledRejectionEv jserror
  | UncaughtExceptionEv jserror
  | ServerErrorEv jserror
  | ServerListeningEv

definition registered :: "hook \<Rightarrow> process \<Rightarrow> bool" where
  "registered h st \<longleftrightarrow> On h \<in> set (trace st)"

definition perform :: "action list \<Rightarrow> process \<Rightarrow> process" where
  "perform acts st = st\<lparr>trace := trace st @ acts\<rparr>"

fun finish :: "action list \<times> completion \<Rightarrow> process \<Rightarrow> process" where
  "finish (acts, Exits c) st = (perform acts st)\<lparr>exited := Some c\<rparr>"
| "finish (acts, _) st = perform acts st"

text \<open>
  A callback called by the runtime. An error it throws goes to the
  \<^verbatim>\<open>uncaughtException\<close> listener, when there is one.
\<close>

fun call :: "action list \<times> completion \<Rightarrow> process \<Rightarrow> process" where
  "call (acts, Throws e) st =
     (if registered OnUncaughtException (perform acts st)
      then finish (uncaughtExceptionHandler e) (perform acts st)
      else perform acts st)"
| "call (acts, c) st = finish (acts, c) st"

text \<open>
  The \<^verbatim>\<open>unhandledRejection\<close> listener is called, runs up to its \<^verbatim>\<open>await\<close> and is
  suspended there.
\<close>

definition unhandledRejectionListener :: "jserror \<Rightarrow> process \<Rightarrow> process" where
  "unhandledRejectionListener e st =
     (if registered OnUnhandledRejection st
      then (perform (unhandledRejectionBegin e) st)\<lparr>suspended := suspended st @ [Rejection]\<rparr>
      else st)"

text \<open>
  The callbacks that the calls of \<^verbatim>\<open>server.close\<close> among \<open>acts\<close> hand over, each
  exiting with \<open>c\<close>.
\<close>

definition closeCalls :: "int \<Rightarrow> action list \<Rightarrow> int list" where
  "closeCalls c acts = map (\<lambda>_. c) (filter (\<lambda>a. a = ServerClose) acts)"

definition step :: "event \<Rightarrow> process \<Rightarrow> process" where
  "step ev st =
     (if exited st \<noteq> None then st
      else case ev of
        ConnectSettled r l \<Rightarrow>
          if connecting st \<and> \<not> (l = None \<and> listenRejects (port st))
          then (case l of
                  None \<Rightarrow> (perform (mainResume (port st) r l) st)\<lparr>connecting := False\<rparr>
                | Some e \<Rightarrow>
                    unhandledRejectionListener e
                      ((perform (mainResume (port st) r l) st)\<lparr>connecting := False\<rparr>))
          else st
      | DisconnectSettled i r \<Rightarrow>
          if i < length (suspended st)
          then (perform (resume (suspended st ! i) r) st)
                 \<lparr>suspended := take i (suspended st) @ drop (Suc i) (suspended st),
                  closeCallbacks := closeCallbacks st @
                    closeCalls (exitCode (suspended st ! i)) (resume (suspended st ! i) r)\<rparr>
          else st
      | ListenerClosed \<Rightarrow>
          (case closeCallbacks st of
             [] \<Rightarrow> st
           | c # cs \<Rightarrow> (perform [Exit c] st)\<lparr>closeCallbacks := cs, exited := Some c\<rparr>)
      | Sigint \<Rightarrow>
          if registered OnSIGINT st
          then (perform sigintBegin st)\<lparr>suspended := suspended st @ [Interrupt]\<rparr>
          else st
      | UnhandledRejectionEv e \<Rightarrow> unhandledRejectionListener e st
      | UncaughtExceptionEv e \<Rightarrow>
          if registered OnUncaughtException st then call (uncaughtExceptionHandler e) st else st
      | ServerErrorEv e \<Rightarrow>
          if registered OnServerError st then call (onError (port st) e) st else st
      | ServerListeningEv \<Rightarrow>
          if registered OnServerListening st then call (onListening (port st)) st else st)"

fun run :: "event list \<Rightarrow> process \<Rightarrow> process" where
  "run [] st = st"
| "run (ev # evs) st = run evs (step ev st)"

text \<open>
  The process when the module has been loaded: the port is resolved, the
  \<^verbatim>\<open>uncaughtException\<close> listener is registered and the main function waits for the
  database connection. \<open>env\<close> is \<^verbatim>\<open>process.env.PORT\<close>.
\<close>

definition boot :: "jsstring option \<Rightarrow> process" where
  "boot env =
     \<lparr>port = normalizePort (configuredPort env),
      trace = moduleTop @ mainBegin,
      connecting = True,
      suspended = [],
      closeCallbacks = [],
      exited = None\<rparr>"

text \<open>The states the process can be in: the booted one and every state a step leads to.\<close>

inductive reachable :: "process \<Rightarrow> bool" where
  boot: "reachable (boot env)"
| step: "reachable st \<Longrightarrow> reachable (step ev st)"

subsection \<open>Orderings on a trace\<close>

text \<open>\<open>precedes a b t\<close>: every occurrence of \<open>b\<close> in \<open>t\<close> has an \<open>a\<close> before it.\<close>

fun precedes :: "action \<Rightarrow> action \<Rightarrow> action list \<Rightarrow> bool" where
  "precedes a b [] = True"
| "precedes a b (x # xs) = (if x = a then True else if x = b then False else precedes a b xs)"

subsection \<open>Concrete runs\<close>

text \<open>Inputs on which the properties below are evaluated.\<close>

definition listenError :: "string \<Rightarrow> jserror" where
  "listenError c = \<lparr>syscall = Some ''listen'', code = Some c, stack = None\<rparr>"

definition someError :: jserror where
  "someError = \<lparr>syscall = None, code = None, stack = Some ''Error: boom''\<rparr>"

definition startedProcess :: process where
  "startedProcess = run [ConnectSettled Fulfilled None] (boot None)"

definition bindErrorRun :: process where
  "bindErrorRun = run [ServerErrorEv (listenError ''EADDRINUSE'')] startedProcess"

definition racingRun :: process where
  "racingRun =
     run [Sigint, UnhandledRejectionEv someError,
          DisconnectSettled 0 Fulfilled, DisconnectSettled 0 Fulfilled] startedProcess"


definition badPortError :: jserror where
  "badPortError = \<lparr>syscall = None, code = Some ''ERR_SOCKET_BAD_PORT'', stack = None\<rparr>"

definition badPortRun :: process where
  "badPortRun = run [ConnectSettled Fulfilled (Some badPortError)] (boot (Some (str ''70000'')))"

section \<open>Properties of the port resolver\<close>

lemma str_sign: "str ''+'' = [43]" "str ''-'' = [45]"
  by (simp_all add: str_def)

lemma isDigit_not_space: "isDigit c \<Longrightarrow> \<not> isWhiteSpace c"
  by (auto simp: isDigit_def isWhiteSpace_def)

lemma sign_not_space: "\<not> isWhiteSpace 43" "\<not> isWhiteSpace 45"
  by (simp_all add: isWhiteSpace_def)

lemma sign_not_digit: "\<not> isDigit 43" "\<not> isDigit 45"
  by (simp_all add: isDigit_def)

lemma takeWhile_digits:
  assumes "\<forall>c \<in> set ds. isDigit c" and "rest = [] \<or> \<not> isDigit (hd rest)"
  shows "takeWhile isDigit (ds @ rest) = ds"
proof (cases rest)
  case Nil
  with assms(1) show ?thesis by simp
next
  case (Cons r rs)
  with assms have "\<not> isDigit r" by simp
  with assms(1) Cons show ?thesis by (simp add: takeWhile_append2)
qed

lemma dropWhile_space:
  assumes "\<forall>c \<in> set ws. isWhiteSpace c" and "t = [] \<or> \<not> isWhiteSpace (hd t)"
  shows "dropWhile isWhiteSpace (ws @ t) = t"
proof (cases t)
  case Nil
  with assms(1) show ?thesis by simp
next
  case (Cons r rs)
  with assms have "\<not> isWhiteSpace r" by simp
  with assms(1) Cons show ?thesis by (simp add: dropWhile_append2)
qed

lemma parsesAs_mathInt:
  assumes "parsesAs s n" shows "mathInt10 s = Some n"
proof -
  from assms obtain ws sg ds rest where
    s: "s = ws @ sg @ ds @ rest" and ws: "\<forall>c \<in> set ws. isWhiteSpace c"
    and sg: "sg = [] \<or> sg = [43] \<or> sg = [45]"
    and ds: "ds \<noteq> []" "\<forall>c \<in> set ds. isDigit c"
    and rest: "rest = [] \<or> \<not> isDigit (hd rest)"
    and n: "n = (if sg = [45] then - 1 else 1) * decimal ds"
    unfolding parsesAs_def str_sign by blast
  from ds obtain d ds' where dd: "ds = d # ds'" "isDigit d" by (cases ds) auto
  have hd: "\<not> isWhiteSpace (hd (sg @ ds @ rest))"
    using sg dd by (auto simp: sign_not_space isDigit_not_space)
  have S: "dropWhile isWhiteSpace s = sg @ ds @ rest"
    unfolding s using ws hd by (intro dropWhile_space) auto
  have dnot: "d \<noteq> 43" "d \<noteq> 45"
    using dd(2) sign_not_digit by auto
  have drop: "dropSign (sg @ ds @ rest) = ds @ rest"
    using sg dd(1) dnot by auto
  have sign: "signOf (sg @ ds @ rest) = (if sg = [45] then - 1 else 1)"
    using sg dd(1) dnot by auto
  have Z: "takeWhile isDigit (ds @ rest) = ds"
    using ds(2) rest by (rule takeWhile_digits)
  show ?thesis
    unfolding mathInt10_def S drop sign Z Let_def using ds(1) n by simp
qed

lemma mathInt_parsesAs:
  assumes "mathInt10 s = Some n" shows "parsesAs s n"
proof -
  define ws where "ws = takeWhile isWhiteSpace s"
  define S where "S = dropWhile isWhiteSpace s"
  define sg where "sg = (case S of [] \<Rightarrow> [] | c # cs \<Rightarrow> if c = 43 \<or> c = 45 then [c] else [])"
  define ds where "ds = takeWhile isDigit (dropSign S)"
  define rest where "rest = dropWhile isDigit (dropSign S)"
  have 1: "s = ws @ S" by (simp add: ws_def S_def)
  have 2: "S = sg @ dropSign S" by (cases S) (auto simp: sg_def)
  have 3: "dropSign S = ds @ rest" by (simp add: ds_def rest_def)
  have s: "s = ws @ sg @ ds @ rest" using 1 2 3 by metis
  have ws: "\<forall>c \<in> set ws. isWhiteSpace c" by (auto simp: ws_def dest: set_takeWhileD)
  have sg: "sg = [] \<or> sg = [43] \<or> sg = [45]" by (cases S) (auto simp: sg_def)
  have dsd: "\<forall>c \<in> set ds. isDigit c" by (auto simp: ds_def dest: set_takeWhileD)
  have rest: "rest = [] \<or> \<not> isDigit (hd rest)"
    unfolding rest_def using hd_dropWhile[of isDigit "dropSign S"] by blast
  from assms have ne: "ds \<noteq> []" and n: "n = signOf S * decimal ds"
    by (auto simp: mathInt10_def Let_def ds_def S_def split: if_splits)
  have sign: "signOf S = (if sg = [45] then - 1 else 1)"
    by (cases S) (auto simp: sg_def)
  have "s = ws @ sg @ ds @ rest \<and> (\<forall>c \<in> set ws. isWhiteSpace c) \<and>
        (sg = [] \<or> sg = [43] \<or> sg = [45]) \<and> ds \<noteq> [] \<and> (\<forall>c \<in> set ds. isDigit c) \<and>
        (rest = [] \<or> \<not> isDigit (hd rest)) \<and>
        n = (if sg = [45] then - 1 else 1) * decimal ds"
    using s ws sg ne dsd rest n sign by simp
  then show ?thesis unfolding parsesAs_def str_sign by (intro exI)
qed

lemma parsesAs_iff: "parsesAs s n \<longleftrightarrow> mathInt10 s = Some n"
  using parsesAs_mathInt mathInt_parsesAs by blast

lemma decimal_nonneg: "\<forall>c \<in> set ds. isDigit c \<Longrightarrow> 0 \<le> decimal ds"
  by (induction ds) (auto simp: isDigit_def digitValue_def)

lemma bitLength_lower: "0 < m \<Longrightarrow> 2 ^ (bitLength m - 1) \<le> m"
proof (induction m rule: bitLength.induct)
  case (1 n)
  show ?case
  proof (cases "n div 2 \<le> 0")
    case True
    with "1.prems" have "bitLength n = Suc 0"
      by (simp add: bitLength.simps [of n] bitLength.simps [of "n div 2"]
          bitLength.simps [of 0])
    with "1.prems" show ?thesis by simp
  next
    case False
    then have pos: "0 < n div 2" by simp
    with "1.IH" "1.prems" have ih: "2 ^ (bitLength (n div 2) - 1) \<le> n div 2" by simp
    from pos have "0 < bitLength (n div 2)" by (simp add: bitLength.simps [of "n div 2"])
    then obtain j where j: "bitLength (n div 2) = Suc j" by (cases "bitLength (n div 2)") auto
    have bl: "bitLength n = Suc (Suc j)"
      using "1.prems" j by (simp add: bitLength.simps [of n])
    from ih j have "2 ^ j \<le> n div 2" by simp
    then have "2 * 2 ^ j \<le> n" by linarith
    with bl show ?thesis by simp
  qed
qed

lemma roundToDouble_positive:
  assumes "0 < m" and "roundToDouble m = Some v"
  shows "0 < v"
proof (cases "m \<le> 2 ^ 53")
  case True
  with assms show ?thesis by (simp add: roundToDouble_def)
next
  case False
  define k where "k = bitLength m - 53"
  define q where "q = m div 2 ^ k"
  have "(2::int) ^ k \<le> 2 ^ (bitLength m - 1)"
    unfolding k_def by (rule power_increasing) auto
  with bitLength_lower [OF assms(1)] have "2 ^ k \<le> m" by linarith
  then have "(2::int) ^ k div 2 ^ k \<le> m div 2 ^ k"
    by (rule zdiv_mono1) simp
  then have q: "1 \<le> q"
    unfolding q_def by simp
  have "v = q * 2 ^ k \<or> v = (q + 1) * 2 ^ k"
    using assms(2) False
    by (auto simp: roundToDouble_def Let_def k_def q_def split: if_splits)
  with q show ?thesis by auto
qed

lemma toNumber_exact: "\<bar>n\<bar> \<le> 2 ^ 53 \<Longrightarrow> toNumber n = Finite n"
  by (auto simp: toNumber_def roundToDouble_def)

lemma toNumber_nonneg:
  assumes "0 \<le> n"
  shows "toNumber n = PosInfinity \<or> (\<exists>k. 0 \<le> k \<and> toNumber n = Finite k)"
proof (cases "n = 0")
  case True
  then show ?thesis by (simp add: toNumber_exact)
next
  case False
  with assms have pos: "0 < \<bar>n\<bar>" by simp
  show ?thesis
  proof (cases "roundToDouble \<bar>n\<bar>")
    case None
    with assms show ?thesis by (simp add: toNumber_def)
  next
    case (Some v)
    with roundToDouble_positive [OF pos] have "0 < v" by simp
    with Some assms show ?thesis by (simp add: toNumber_def)
  qed
qed

lemma toNumber_negative:
  assumes "n < 0"
  shows "toNumber n = NegInfinity \<or> (\<exists>k. k < 0 \<and> toNumber n = Finite k)"
proof -
  from assms have pos: "0 < \<bar>n\<bar>" by simp
  show ?thesis
  proof (cases "roundToDouble \<bar>n\<bar>")
    case None
    with assms show ?thesis by (simp add: toNumber_def)
  next
    case (Some v)
    with roundToDouble_positive [OF pos] have "0 < v" by simp
    with Some assms show ?thesis by (simp add: toNumber_def)
  qed
qed

lemma toNumber_not_NaN: "toNumber n \<noteq> NaN"
  by (simp add: toNumber_def split: option.splits)

lemma normalizePort_parsed:
  assumes "mathInt10 s = Some n"
  shows "normalizePort s = (if 0 \<le> n then NumericPort (toNumber n) else Invalid)"
proof (cases "0 \<le> n")
  case True
  with toNumber_nonneg [OF True] assms show ?thesis
    by (auto simp: normalizePort_def parseInt10_def isNaN_def)
next
  case False
  then have "n < 0" by simp
  from toNumber_negative [OF this] assms False show ?thesis
    by (auto simp: normalizePort_def parseInt10_def isNaN_def)
qed

lemma normalizePort_unparsed: "mathInt10 s = None \<Longrightarrow> normalizePort s = NamedPipe s"
  by (simp add: normalizePort_def parseInt10_def isNaN_def)

lemmas port_eval =
  str_def mathInt10_def isWhiteSpace_def isDigit_def digitValue_def

text \<open>
  C3, as stated, fails for an integer that is not a double: the string
  \<^verbatim>\<open>9007199254740993\<close> parses as that integer, \<open>2 ^ 53 + 1\<close>, and the port resolver
  returns the number 9007199254740992.
\<close>

theorem unsafe_integer_is_rounded:
  "parsesAs (str ''9007199254740993'') 9007199254740993 \<and>
   normalizePort (str ''9007199254740993'') = NumericPort (Finite 9007199254740992) \<and>
   normalizePort (str ''9007199254740993'') \<noteq> NumericPort (Finite 9007199254740993)"
proof -
  have m: "mathInt10 (str ''9007199254740993'') = Some 9007199254740993"
    by (simp add: port_eval)
  have r: "toNumber 9007199254740993 = Finite 9007199254740992"
    by code_simp
  from m r show ?thesis
    by (simp add: parsesAs_iff normalizePort_parsed)
qed

text \<open>
  C3, amended. For every configuration string \<open>s\<close>, \<^const>\<open>normalizePort\<close> returns
  the original string as a named pipe when \<open>s\<close> does not parse as an integer at all,
  the invalid value when \<open>s\<close> parses as a negative integer, and a numeric port when
  \<open>s\<close> parses as an integer \<open>n \<ge> 0\<close>: the number \<open>n\<close> itself when \<open>n \<le> 2 ^ 53\<close>, and
  otherwise the double nearest to \<open>n\<close>, which is infinite when \<open>n\<close> is beyond the range
  of doubles. The integer a string parses as is unique, and there is no further
  outcome.
\<close>

theorem normalizePort_outcomes:
  "(parsesAs s n \<and> 0 \<le> n \<longrightarrow> normalizePort s = NumericPort (toNumber n)) \<and>
   (0 \<le> n \<and> n \<le> 2 ^ 53 \<longrightarrow> toNumber n = Finite n) \<and>
   (parsesAs s n \<and> n < 0 \<longrightarrow> normalizePort s = Invalid) \<and>
   ((\<forall>m. \<not> parsesAs s m) \<longrightarrow> normalizePort s = NamedPipe s) \<and>
   (parsesAs s n \<and> parsesAs s m \<longrightarrow> n = m) \<and>
   (normalizePort s = NamedPipe s \<or> normalizePort s = Invalid \<or>
    normalizePort s = NumericPort PosInfinity \<or>
    (\<exists>k. 0 \<le> k \<and> normalizePort s = NumericPort (Finite k)))"
proof (intro conjI impI)
  assume "parsesAs s n \<and> 0 \<le> n"
  then show "normalizePort s = NumericPort (toNumber n)"
    by (simp add: parsesAs_iff normalizePort_parsed)
next
  assume "0 \<le> n \<and> n \<le> 2 ^ 53"
  then show "toNumber n = Finite n" by (simp add: toNumber_exact)
next
  assume "parsesAs s n \<and> n < 0"
  then show "normalizePort s = Invalid"
    by (simp add: parsesAs_iff normalizePort_parsed)
next
  assume "\<forall>m. \<not> parsesAs s m"
  then have "mathInt10 s = None"
    by (cases "mathInt10 s") (auto simp: parsesAs_iff)
  then show "normalizePort s = NamedPipe s"
    by (rule normalizePort_unparsed)
next
  assume "parsesAs s n \<and> parsesAs s m"
  then show "n = m" by (auto simp: parsesAs_iff)
next
  show "normalizePort s = NamedPipe s \<or> normalizePort s = Invalid \<or>
    normalizePort s = NumericPort PosInfinity \<or>
    (\<exists>k. 0 \<le> k \<and> normalizePort s = NumericPort (Finite k))"
  proof (cases "mathInt10 s")
    case None
    then show ?thesis by (simp add: normalizePort_unparsed)
  next
    case (Some v)
    show ?thesis
    proof (cases "0 \<le> v")
      case True
      with toNumber_nonneg [OF True] Some show ?thesis
        by (auto simp: normalizePort_parsed)
    next
      case False
      with Some show ?thesis by (simp add: normalizePort_parsed)
    qed
  qed
qed

theorem normalizePort_outcomes_witness:
  "parsesAs (str ''5051'') 5051 \<and> normalizePort (str ''5051'') = NumericPort (Finite 5051) \<and>
   parsesAs (str ''-3'') (- 3) \<and> normalizePort (str ''-3'') = Invalid \<and>
   (\<forall>m. \<not> parsesAs (str ''/tmp/app.sock'') m) \<and>
   normalizePort (str ''/tmp/app.sock'') = NamedPipe (str ''/tmp/app.sock'')"
proof -
  have a: "parsesAs (str ''5051'') 5051"
    by (simp add: parsesAs_iff port_eval)
  have b: "parsesAs (str ''-3'') (- 3)"
    by (simp add: parsesAs_iff port_eval)
  have c: "\<forall>m. \<not> parsesAs (str ''/tmp/app.sock'') m"
    by (simp add: parsesAs_iff port_eval)
  note t1 = normalizePort_outcomes [of "str ''5051''" 5051 5051]
  from t1 have "parsesAs (str ''5051'') 5051 \<and> (0::int) \<le> 5051 \<longrightarrow>
      normalizePort (str ''5051'') = NumericPort (toNumber 5051)"
    by (rule conjunct1)
  with a have a1: "normalizePort (str ''5051'') = NumericPort (toNumber 5051)" by simp
  from t1 have "(0::int) \<le> 5051 \<and> (5051::int) \<le> 2 ^ 53 \<longrightarrow> toNumber 5051 = Finite 5051"
    by (rule conjunct1 [OF conjunct2])
  then have a2: "toNumber 5051 = Finite 5051" by simp
  from normalizePort_outcomes [of "str ''-3''" "- 3" "- 3"]
  have "parsesAs (str ''-3'') (- 3) \<and> (- 3 :: int) < 0 \<longrightarrow> normalizePort (str ''-3'') = Invalid"
    by (rule conjunct1 [OF conjunct2 [OF conjunct2]])
  with b have b': "normalizePort (str ''-3'') = Invalid" by simp
  from normalizePort_outcomes [of "str ''/tmp/app.sock''" 0 0]
  have "(\<forall>m. \<not> parsesAs (str ''/tmp/app.sock'') m) \<longrightarrow>
    normalizePort (str ''/tmp/app.sock'') = NamedPipe (str ''/tmp/app.sock'')"
    by (rule conjunct1 [OF conjunct2 [OF conjunct2 [OF conjunct2]]])
  with c have c': "normalizePort (str ''/tmp/app.sock'') = NamedPipe (str ''/tmp/app.sock'')"
    by (rule rev_mp)
  from a1 a2 have a': "normalizePort (str ''5051'') = NumericPort (Finite 5051)" by simp
  from a a' b b' c c' show ?thesis by (intro conjI)
qed

text \<open>
  C10. Integer parsing looks at a prefix only: a string that begins with a run of
  decimal digits followed by a character that is not a digit resolves to the numeric
  port of the digits, that is, to what the digits alone resolve to, and not to a
  named pipe. Up to \<open>2 ^ 53\<close> that port is the integer the digits denote.
\<close>

theorem normalizePort_prefix:
  assumes "ds \<noteq> []" and "\<forall>c \<in> set ds. isDigit c"
    and "rest \<noteq> []" and "\<not> isDigit (hd rest)"
  shows "normalizePort (ds @ rest) = NumericPort (toNumber (decimal ds)) \<and>
         normalizePort (ds @ rest) = normalizePort ds \<and>
         normalizePort (ds @ rest) \<noteq> NamedPipe (ds @ rest) \<and>
         (decimal ds \<le> 2 ^ 53 \<longrightarrow>
            normalizePort (ds @ rest) = NumericPort (Finite (decimal ds)))"
proof -
  have nn: "0 \<le> decimal ds" using assms(2) by (rule decimal_nonneg)
  have "parsesAs (ds @ rest) (decimal ds)"
    unfolding parsesAs_def
    by (rule exI [of _ "[]"], rule exI [of _ "[]"], rule exI [of _ ds], rule exI [of _ rest])
      (use assms in \<open>simp add: str_sign\<close>)
  then have 1: "normalizePort (ds @ rest) = NumericPort (toNumber (decimal ds))"
    using nn by (simp add: parsesAs_iff normalizePort_parsed)
  have "parsesAs ds (decimal ds)"
    unfolding parsesAs_def
    by (rule exI [of _ "[]"], rule exI [of _ "[]"], rule exI [of _ ds], rule exI [of _ "[]"])
      (use assms in \<open>simp add: str_sign\<close>)
  then have 2: "normalizePort ds = NumericPort (toNumber (decimal ds))"
    using nn by (simp add: parsesAs_iff normalizePort_parsed)
  have 3: "decimal ds \<le> 2 ^ 53 \<longrightarrow>
      normalizePort (ds @ rest) = NumericPort (Finite (decimal ds))"
    using 1 nn by (simp add: toNumber_exact)
  from 1 2 3 show ?thesis by simp
qed

theorem normalizePort_prefix_witness:
  "str ''80'' \<noteq> [] \<and> str ''abc'' \<noteq> [] \<and> \<not> isDigit (hd (str ''abc'')) \<and>
   normalizePort (str ''80abc'') = NumericPort (Finite 80) \<and>
   normalizePort (str ''80abc'') \<noteq> NamedPipe (str ''80abc'')"
proof -
  have h1: "str ''80'' \<noteq> []" by (simp add: str_def)
  have h2: "\<forall>c \<in> set (str ''80''). isDigit c" by (simp add: str_def isDigit_def)
  have h3: "str ''abc'' \<noteq> []" by (simp add: str_def)
  have h4: "\<not> isDigit (hd (str ''abc''))" by (simp add: str_def isDigit_def)
  have v: "decimal (str ''80'') = 80" by (simp add: str_def digitValue_def)
  have c: "str ''80'' @ str ''abc'' = str ''80abc''" by (simp add: str_def)
  from normalizePort_prefix [OF h1 h2 h3 h4]
  have r: "normalizePort (str ''80abc'') = NumericPort (Finite 80) \<and>
      normalizePort (str ''80abc'') \<noteq> NamedPipe (str ''80abc'')"
    unfolding v c by (simp add: toNumber_exact)
  from h1 h3 h4 r show ?thesis by simp
qed


section \<open>Properties of the event loop\<close>

lemmas segments =
  moduleTop_def mainBegin_def mainResume_def closeAllExternalServicesBegin_def
  closeAllExternalServicesResume_def unhandledRejectionBegin_def sigintBegin_def
  onError_def onListening_def uncaughtExceptionHandler_def

lemma precedes_append:
  "precedes a b (t @ u) \<longleftrightarrow> precedes a b t \<and> (a \<in> set t \<or> precedes a b u)"
  by (induction t) auto

lemma precedes_absent: "b \<notin> set t \<Longrightarrow> precedes a b t"
  by (induction t) auto

lemma precedes_splitD:
  "precedes a b (pre @ b # post) \<Longrightarrow> a \<noteq> b \<Longrightarrow> a \<in> set pre"
  by (induction pre) (auto split: if_splits)

lemma precedes_splitI:
  assumes "\<And>pre post. t = pre @ b # post \<Longrightarrow> a \<in> set pre"
  shows "precedes a b t"
  using assms
proof (induction t)
  case Nil
  then show ?case by simp
next
  case (Cons x xs)
  show ?case
  proof (cases "x = a")
    case True
    then show ?thesis by simp
  next
    case False
    have "x \<noteq> b"
    proof
      assume "x = b"
      then have "x # xs = [] @ b # xs" by simp
      then have "a \<in> set []" by (rule Cons.prems)
      then show False by simp
    qed
    moreover have "precedes a b xs"
    proof (rule Cons.IH)
      fix pre post
      assume "xs = pre @ b # post"
      then have "x # xs = (x # pre) @ b # post" by simp
      then have "a \<in> set (x # pre)" by (rule Cons.prems)
      with False show "a \<in> set pre" by simp
    qed
    ultimately show ?thesis using False by simp
  qed
qed

lemma step_port: "port (step ev st) = port st"
  unfolding step_def
  by (auto simp: perform_def unhandledRejectionListener_def segments
      split: event.splits list.splits option.splits)

lemma resume_count:
  "count_list (resume t r) ServerClose = 1" "count_list (resume t r) DbDisconnect = 0"
  by (cases t; cases r; simp add: segments)+

lemma resume_set:
  "ServerClose \<in> set (resume t r)" "DbDisconnect \<notin> set (resume t r)"
  "Exit c \<notin> set (resume t r)" "On h \<notin> set (resume t r)"
  "ServerListen p \<notin> set (resume t r)" "MainRejects x \<notin> set (resume t r)"
  by (cases t; cases r; simp add: segments)+

lemma closeCalls_resume: "closeCalls c (resume t r) = [c]"
  by (cases t; cases r; simp add: closeCalls_def segments)

lemma mainResume_registers: "On OnUnhandledRejection \<in> set (mainResume p r l)"
  by (simp add: mainResume_def)

lemma perform_Nil: "perform [] st = st"
  by (simp add: perform_def)

lemma onError_cases:
  "onError p e = ([], Throws e) \<or>
   (\<exists>m. onError p e = ([Log LError m, Exit 1], Exits 1))"
  by (simp add: onError_def)

lemma step_cases [case_names idle connect settled closed sigint rejection uncaught bindExit listening
    connectThrows]:
  assumes "step ev st = st \<Longrightarrow> thesis"
    and "\<And>r. \<lbrakk>exited st = None; connecting st; \<not> listenRejects (port st);
          step ev st = (perform (mainResume (port st) r None) st)\<lparr>connecting := False\<rparr>\<rbrakk>
          \<Longrightarrow> thesis"
    and "\<And>i r. \<lbrakk>exited st = None; i < length (suspended st);
          step ev st = (perform (resume (suspended st ! i) r) st)
            \<lparr>suspended := take i (suspended st) @ drop (Suc i) (suspended st),
             closeCallbacks := closeCallbacks st @ [exitCode (suspended st ! i)]\<rparr>\<rbrakk> \<Longrightarrow> thesis"
    and "\<And>c cs. \<lbrakk>exited st = None; closeCallbacks st = c # cs;
          step ev st = (perform [Exit c] st)\<lparr>closeCallbacks := cs, exited := Some c\<rparr>\<rbrakk> \<Longrightarrow> thesis"
    and "\<lbrakk>exited st = None; registered OnSIGINT st;
          step ev st = (perform sigintBegin st)\<lparr>suspended := suspended st @ [Interrupt]\<rparr>\<rbrakk> \<Longrightarrow> thesis"
    and "\<And>e. \<lbrakk>exited st = None; registered OnUnhandledRejection st;
          step ev st = (perform (unhandledRejectionBegin e) st)
            \<lparr>suspended := suspended st @ [Rejection]\<rparr>\<rbrakk> \<Longrightarrow> thesis"
    and "\<And>e. \<lbrakk>exited st = None; registered OnUncaughtException st;
          step ev st = (perform (fst (uncaughtExceptionHandler e)) st)\<lparr>exited := Some 1\<rparr>\<rbrakk> \<Longrightarrow> thesis"
    and "\<And>m. \<lbrakk>exited st = None; registered OnServerError st;
          step ev st = (perform [Log LError m, Exit 1] st)\<lparr>exited := Some 1\<rparr>\<rbrakk> \<Longrightarrow> thesis"
    and "\<lbrakk>exited st = None; registered OnServerListening st;
          step ev st = perform (fst (onListening (port st))) st\<rbrakk> \<Longrightarrow> thesis"
    and "\<And>r e. \<lbrakk>exited st = None; connecting st;
          step ev st = (perform (mainResume (port st) r (Some e) @ unhandledRejectionBegin e) st)
            \<lparr>connecting := False, suspended := suspended st @ [Rejection]\<rparr>\<rbrakk> \<Longrightarrow> thesis"
  shows thesis
proof (cases "exited st = None")
  case False
  then have "step ev st = st" by (simp add: step_def)
  then show ?thesis by (rule assms(1))
next
  case running: True
  show ?thesis
  proof (cases ev)
    case (ConnectSettled r l)
    show ?thesis
    proof (cases "connecting st")
      case False
      with running ConnectSettled have "step ev st = st" by (simp add: step_def)
      then show ?thesis by (rule assms(1))
    next
      case True
      show ?thesis
      proof (cases l)
        case None
        show ?thesis
        proof (cases "listenRejects (port st)")
          case rejects: True
          with running None ConnectSettled have "step ev st = st" by (simp add: step_def)
          then show ?thesis by (rule assms(1))
        next
          case False
          with running True None ConnectSettled show ?thesis
            using assms(2) [of r] by (simp add: step_def)
        qed
      next
        case (Some e)
        with running True ConnectSettled show ?thesis
          using assms(10) [of r e] mainResume_registers [of "port st" r "Some e"]
          by (simp add: step_def unhandledRejectionListener_def registered_def perform_def)
      qed
    qed
  next
    case (DisconnectSettled i r)
    with running show ?thesis
      using assms(1) assms(3) [of i r]
      by (cases "i < length (suspended st)") (simp_all add: step_def closeCalls_resume)
  next
    case ListenerClosed
    with running show ?thesis
      using assms(1) assms(4)
      by (cases "closeCallbacks st") (simp_all add: step_def)
  next
    case Sigint
    with running show ?thesis
      using assms(1) assms(5) by (cases "registered OnSIGINT st") (simp_all add: step_def)
  next
    case (UnhandledRejectionEv e)
    with running show ?thesis
      using assms(1) assms(6) [of e]
      by (cases "registered OnUnhandledRejection st")
        (simp_all add: step_def unhandledRejectionListener_def)
  next
    case (UncaughtExceptionEv e)
    with running show ?thesis
      using assms(1) assms(7) [of e]
      by (cases "registered OnUncaughtException st")
        (simp_all add: step_def uncaughtExceptionHandler_def)
  next
    case (ServerErrorEv e)
    show ?thesis
    proof (cases "registered OnServerError st")
      case False
      with running ServerErrorEv have "step ev st = st" by (simp add: step_def)
      then show ?thesis by (rule assms(1))
    next
      case reg: True
      from onError_cases [of "port st" e] show ?thesis
      proof
        assume thrown: "onError (port st) e = ([], Throws e)"
        show ?thesis
        proof (cases "registered OnUncaughtException st")
          case True
          with running reg ServerErrorEv thrown show ?thesis
            using assms(7) [of e]
            by (simp add: step_def perform_Nil uncaughtExceptionHandler_def)
        next
          case False
          with running reg ServerErrorEv thrown have "step ev st = st"
            by (simp add: step_def perform_Nil)
          then show ?thesis by (rule assms(1))
        qed
      next
        assume "\<exists>m. onError (port st) e = ([Log LError m, Exit 1], Exits 1)"
        then obtain m where "onError (port st) e = ([Log LError m, Exit 1], Exits 1)" ..
        with running reg ServerErrorEv show ?thesis
          using assms(8) [of m] by (simp add: step_def)
      qed
    qed
  next
    case ServerListeningEv
    with running show ?thesis
      using assms(1) assms(9)
      by (cases "registered OnServerListening st") (simp_all add: step_def onListening_def)
  qed
qed

lemma reachable_run: "reachable st \<Longrightarrow> reachable (run evs st)"
  by (induction evs arbitrary: st) (simp_all add: reachable.step)

lemma reachable_hook_uncaught: "reachable st \<Longrightarrow> On OnUncaughtException \<in> set (trace st)"
proof (induction rule: reachable.induct)
  case (boot env)
  show ?case by (simp add: boot_def segments)
next
  case (step st ev)
  show ?case
    by (rule step_cases [of ev st]) (use step.IH in \<open>auto simp: perform_def\<close>)
qed

lemma reachable_connecting:
  "reachable st \<Longrightarrow> connecting st \<Longrightarrow>
     suspended st = [] \<and> closeCallbacks st = [] \<and>
     (\<forall>p. ServerListen p \<notin> set (trace st)) \<and>
     (\<forall>h. h \<noteq> OnUncaughtException \<longrightarrow> On h \<notin> set (trace st)) \<and>
     (\<forall>x. MainRejects x \<notin> set (trace st)) \<and>
     DbDisconnect \<notin> set (trace st) \<and> ServerClose \<notin> set (trace st)"
proof (induction rule: reachable.induct)
  case (boot env)
  show ?case by (auto simp: boot_def segments)
next
  case (step st ev)
  show ?case
    by (rule step_cases [of ev st])
      (use step in \<open>auto simp: perform_def registered_def segments\<close>)
qed

lemma mainResume_always: "h \<noteq> OnUncaughtException \<Longrightarrow> h \<noteq> OnServerError \<Longrightarrow>
    h \<noteq> OnServerListening \<Longrightarrow> On h \<in> set (mainResume p r l)"
  by (cases h) (simp_all add: mainResume_def)

lemma reachable_started:
  "reachable st \<Longrightarrow> \<not> connecting st \<Longrightarrow> h \<noteq> OnServerError \<Longrightarrow> h \<noteq> OnServerListening \<Longrightarrow>
     On h \<in> set (trace st) \<and> ServerListen (port st) \<in> set (trace st)"
proof (induction rule: reachable.induct)
  case (boot env)
  then show ?case by (simp add: boot_def)
next
  case (step st ev)
  have unc: "On OnUncaughtException \<in> set (trace st)"
    using step.hyps by (rule reachable_hook_uncaught)
  have new: "h \<noteq> OnUncaughtException \<Longrightarrow> On h \<in> set (mainResume (port st) r l)" for r l
    using step.prems by (simp add: mainResume_always)
  have listen: "ServerListen (port st) \<in> set (mainResume (port st) r l)" for r l
    by (simp add: mainResume_def)
  show ?case
    by (rule step_cases [of ev st])
      (use step unc new listen in \<open>auto simp: perform_def\<close>)
qed

lemma reachable_listening:
  "reachable st \<Longrightarrow> \<not> connecting st \<Longrightarrow> \<forall>x. MainRejects x \<notin> set (trace st) \<Longrightarrow>
     On OnServerError \<in> set (trace st) \<and> On OnServerListening \<in> set (trace st)"
proof (induction rule: reachable.induct)
  case (boot env)
  then show ?case by (simp add: boot_def)
next
  case (step st ev)
  show ?case
    by (rule step_cases [of ev st])
      (use step in \<open>auto simp: perform_def mainResume_def\<close>)
qed

lemma reachable_rejected:
  "reachable st \<Longrightarrow> MainRejects x \<in> set (trace st) \<Longrightarrow>
     On OnServerError \<notin> set (trace st) \<and> On OnServerListening \<notin> set (trace st)"
proof (induction rule: reachable.induct)
  case (boot env)
  then show ?case by (simp add: boot_def segments)
next
  case (step st ev)
  have waiting: "connecting st \<Longrightarrow>
      On OnServerError \<notin> set (trace st) \<and> On OnServerListening \<notin> set (trace st) \<and>
      (\<forall>x. MainRejects x \<notin> set (trace st))"
    using reachable_connecting [OF step.hyps] by simp
  show ?case
  proof (rule step_cases [of ev st])
    fix i r
    assume "step ev st = (perform (resume (suspended st ! i) r) st)
            \<lparr>suspended := take i (suspended st) @ drop (Suc i) (suspended st),
             closeCallbacks := closeCallbacks st @ [exitCode (suspended st ! i)]\<rparr>"
    then show ?thesis
      using step.IH step.prems by (auto simp: perform_def resume_set)
  qed (use step waiting in \<open>auto simp: perform_def segments split: outcome.splits\<close>)
qed

lemma precedes_append_absent: "b \<notin> set u \<Longrightarrow> precedes a b (t @ u) = precedes a b t"
  by (simp add: precedes_append precedes_absent)

lemma precedes_absent_append:
  "a \<notin> set t \<Longrightarrow> b \<notin> set t \<Longrightarrow> precedes a b (t @ u) = precedes a b u"
  by (induction t) auto

lemma reachable_registered_first:
  "reachable st \<Longrightarrow>
     precedes (On OnUnhandledRejection) (ServerListen p) (trace st) \<and>
     precedes (On OnSIGINT) (ServerListen p) (trace st)"
proof (induction rule: reachable.induct)
  case (boot env)
  show ?case by (simp add: boot_def segments)
next
  case (step st ev)
  show ?case
  proof (rule step_cases [of ev st])
    fix r
    assume "step ev st = (perform (mainResume (port st) r None) st)\<lparr>connecting := False\<rparr>"
      and "connecting st"
    then show ?thesis
      using reachable_connecting [OF step.hyps]
      by (cases r) (simp_all add: perform_def precedes_absent_append, simp_all add: mainResume_def)
  next
    fix r e
    assume "step ev st =
        (perform (mainResume (port st) r (Some e) @ unhandledRejectionBegin e) st)
          \<lparr>connecting := False, suspended := suspended st @ [Rejection]\<rparr>"
      and "connecting st"
    then show ?thesis
      using reachable_connecting [OF step.hyps]
      by (cases r) (simp_all add: perform_def precedes_absent_append, simp_all add: mainResume_def)
  qed (use step.IH in
      \<open>auto simp: perform_def segments precedes_append_absent resume_set\<close>)
qed

lemma reachable_listen_before_error_hook:
  "reachable st \<Longrightarrow> precedes (ServerListen (port st)) (On OnServerError) (trace st)"
proof (induction rule: reachable.induct)
  case (boot env)
  show ?case by (simp add: boot_def segments)
next
  case (step st ev)
  have p: "port (step ev st) = port st" by (rule step_port)
  show ?case unfolding p
  proof (rule step_cases [of ev st])
    fix r
    assume "step ev st = (perform (mainResume (port st) r None) st)\<lparr>connecting := False\<rparr>"
      and "connecting st"
    then show "precedes (ServerListen (port st)) (On OnServerError) (trace (step ev st))"
      using reachable_connecting [OF step.hyps]
      by (cases r) (simp_all add: perform_def precedes_absent_append, simp_all add: mainResume_def)
  next
    fix r e
    assume "step ev st =
        (perform (mainResume (port st) r (Some e) @ unhandledRejectionBegin e) st)
          \<lparr>connecting := False, suspended := suspended st @ [Rejection]\<rparr>"
      and "connecting st"
    then show "precedes (ServerListen (port st)) (On OnServerError) (trace (step ev st))"
      using reachable_connecting [OF step.hyps]
      by (cases r) (simp_all add: perform_def precedes_absent_append, simp_all add: mainResume_def)
  qed (use step.IH in
      \<open>auto simp: perform_def segments precedes_append_absent resume_set\<close>)
qed

lemma length_remove_nth: "i < length xs \<Longrightarrow> Suc (length (take i xs @ drop (Suc i) xs)) = length xs"
  by auto

lemma reachable_counts:
  "reachable st \<Longrightarrow>
     count_list (trace st) DbDisconnect = length (suspended st) + count_list (trace st) ServerClose"
proof (induction rule: reachable.induct)
  case (boot env)
  show ?case by (simp add: boot_def segments)
next
  case (step st ev)
  show ?case
  proof (rule step_cases [of ev st])
    fix i r
    assume "i < length (suspended st)"
      and "step ev st = (perform (resume (suspended st ! i) r) st)
            \<lparr>suspended := take i (suspended st) @ drop (Suc i) (suspended st),
             closeCallbacks := closeCallbacks st @ [exitCode (suspended st ! i)]\<rparr>"
    then show ?thesis
      using step.IH length_remove_nth [of i "suspended st"]
      by (simp add: perform_def resume_count)
  next
    fix r
    assume "step ev st = (perform (mainResume (port st) r None) st)\<lparr>connecting := False\<rparr>"
    then show ?thesis using step.IH by (cases r) (simp_all add: perform_def mainResume_def)
  next
    fix r e
    assume "step ev st =
        (perform (mainResume (port st) r (Some e) @ unhandledRejectionBegin e) st)
          \<lparr>connecting := False, suspended := suspended st @ [Rejection]\<rparr>"
    then show ?thesis using step.IH by (cases r) (simp_all add: perform_def segments)
  qed (use step.IH in \<open>auto simp: perform_def segments\<close>)
qed

lemma reachable_running:
  "reachable st \<Longrightarrow> exited st = None \<Longrightarrow>
     length (closeCallbacks st) = count_list (trace st) ServerClose \<and>
     (\<forall>c. Exit c \<notin> set (trace st))"
proof (induction rule: reachable.induct)
  case (boot env)
  show ?case by (simp add: boot_def segments)
next
  case (step st ev)
  show ?case
  proof (rule step_cases [of ev st])
    fix r
    assume "step ev st = (perform (mainResume (port st) r None) st)\<lparr>connecting := False\<rparr>"
      and "exited st = None"
    then show ?thesis using step.IH by (cases r) (simp_all add: perform_def mainResume_def)
  next
    fix r e
    assume "step ev st =
        (perform (mainResume (port st) r (Some e) @ unhandledRejectionBegin e) st)
          \<lparr>connecting := False, suspended := suspended st @ [Rejection]\<rparr>"
      and "exited st = None"
    then show ?thesis using step.IH by (cases r) (simp_all add: perform_def segments)
  qed (use step in \<open>auto simp: perform_def segments resume_count resume_set\<close>)
qed

lemma reachable_disconnect_first:
  "reachable st \<Longrightarrow>
     precedes DbDisconnect ServerClose (trace st) \<and>
     (suspended st \<noteq> [] \<longrightarrow> DbDisconnect \<in> set (trace st))"
proof (induction rule: reachable.induct)
  case (boot env)
  show ?case by (simp add: boot_def segments)
next
  case (step st ev)
  show ?case
  proof (rule step_cases [of ev st])
    fix r
    assume "step ev st = (perform (mainResume (port st) r None) st)\<lparr>connecting := False\<rparr>"
      and "connecting st"
    then show ?thesis
      using step.IH reachable_connecting [OF step.hyps]
      by (cases r) (simp_all add: perform_def mainResume_def precedes_append)
  next
    fix r e
    assume "step ev st =
        (perform (mainResume (port st) r (Some e) @ unhandledRejectionBegin e) st)
          \<lparr>connecting := False, suspended := suspended st @ [Rejection]\<rparr>"
      and "connecting st"
    then show ?thesis
      using step.IH reachable_connecting [OF step.hyps]
      by (cases r) (simp_all add: perform_def segments precedes_append)
  next
    fix i r
    assume "i < length (suspended st)"
      and "step ev st = (perform (resume (suspended st ! i) r) st)
            \<lparr>suspended := take i (suspended st) @ drop (Suc i) (suspended st),
             closeCallbacks := closeCallbacks st @ [exitCode (suspended st ! i)]\<rparr>"
    moreover from this have "suspended st \<noteq> []" by auto
    ultimately show ?thesis
      using step.IH by (simp add: perform_def precedes_append)
  qed (use step.IH in \<open>auto simp: perform_def segments precedes_append\<close>)
qed

lemma reachable_close_first:
  "reachable st \<Longrightarrow>
     precedes ServerClose (Exit 0) (trace st) \<and>
     (closeCallbacks st \<noteq> [] \<longrightarrow> ServerClose \<in> set (trace st))"
proof (induction rule: reachable.induct)
  case (boot env)
  show ?case by (simp add: boot_def segments)
next
  case (step st ev)
  show ?case
  proof (rule step_cases [of ev st])
    fix r
    assume "step ev st = (perform (mainResume (port st) r None) st)\<lparr>connecting := False\<rparr>"
      and "exited st = None"
    then show ?thesis
      using step.IH reachable_running [OF step.hyps]
      by (cases r) (simp_all add: perform_def mainResume_def precedes_append_absent)
  next
    fix r e
    assume "step ev st =
        (perform (mainResume (port st) r (Some e) @ unhandledRejectionBegin e) st)
          \<lparr>connecting := False, suspended := suspended st @ [Rejection]\<rparr>"
      and "exited st = None"
    then show ?thesis
      using step.IH reachable_running [OF step.hyps]
      by (cases r) (simp_all add: perform_def segments precedes_append_absent)
  next
    fix i r
    assume "step ev st = (perform (resume (suspended st ! i) r) st)
            \<lparr>suspended := take i (suspended st) @ drop (Suc i) (suspended st),
             closeCallbacks := closeCallbacks st @ [exitCode (suspended st ! i)]\<rparr>"
    then show ?thesis
      using step.IH
      by (simp add: perform_def precedes_append_absent resume_set)
  qed (use step.IH in \<open>auto simp: perform_def segments precedes_append\<close>)
qed

lemma step_ConnectSettled:
  "exited st = None \<Longrightarrow> connecting st \<Longrightarrow> \<not> listenRejects (port st) \<Longrightarrow>
   step (ConnectSettled r None) st = (perform (mainResume (port st) r None) st)\<lparr>connecting := False\<rparr>"
  by (simp add: step_def)

lemma step_ConnectThrows:
  "exited st = None \<Longrightarrow> connecting st \<Longrightarrow>
   step (ConnectSettled r (Some e)) st =
     (perform (mainResume (port st) r (Some e) @ unhandledRejectionBegin e) st)
       \<lparr>connecting := False, suspended := suspended st @ [Rejection]\<rparr>"
  using mainResume_registers [of "port st" r "Some e"]
  by (simp add: step_def unhandledRejectionListener_def registered_def perform_def)

lemma step_Sigint:
  "exited st = None \<Longrightarrow> registered OnSIGINT st \<Longrightarrow>
   step Sigint st = (perform sigintBegin st)\<lparr>suspended := suspended st @ [Interrupt]\<rparr>"
  by (simp add: step_def)

lemma step_UnhandledRejection:
  "exited st = None \<Longrightarrow> registered OnUnhandledRejection st \<Longrightarrow>
   step (UnhandledRejectionEv e) st =
     (perform (unhandledRejectionBegin e) st)\<lparr>suspended := suspended st @ [Rejection]\<rparr>"
  by (simp add: step_def unhandledRejectionListener_def)

lemma step_DisconnectSettled:
  "exited st = None \<Longrightarrow> i < length (suspended st) \<Longrightarrow>
   step (DisconnectSettled i r) st =
     (perform (resume (suspended st ! i) r) st)
       \<lparr>suspended := take i (suspended st) @ drop (Suc i) (suspended st),
        closeCallbacks := closeCallbacks st @ [exitCode (suspended st ! i)]\<rparr>"
  by (simp add: step_def closeCalls_resume)

lemma step_ListenerClosed:
  "exited st = None \<Longrightarrow> closeCallbacks st = c # cs \<Longrightarrow>
   step ListenerClosed st = (perform [Exit c] st)\<lparr>closeCallbacks := cs, exited := Some c\<rparr>"
  by (simp add: step_def)

lemma step_UncaughtException:
  "exited st = None \<Longrightarrow> registered OnUncaughtException st \<Longrightarrow>
   step (UncaughtExceptionEv e) st =
     (perform (fst (uncaughtExceptionHandler e)) st)\<lparr>exited := Some 1\<rparr>"
  by (simp add: step_def uncaughtExceptionHandler_def)

lemma step_ServerError:
  "exited st = None \<Longrightarrow> registered OnServerError st \<Longrightarrow>
   step (ServerErrorEv e) st = call (onError (port st) e) st"
  by (simp add: step_def)

lemma step_ServerListening:
  "exited st = None \<Longrightarrow> registered OnServerListening st \<Longrightarrow>
   step ServerListeningEv st = perform (fst (onListening (port st))) st"
  by (simp add: step_def onListening_def)

lemma default_port: "normalizePort (configuredPort None) = NumericPort (Finite 5051)"
proof -
  have "mathInt10 (str ''5051'') = Some 5051" by (simp add: port_eval)
  then show ?thesis
    by (simp add: configuredPort_def normalizePort_parsed toNumber_exact)
qed

lemma startedProcess_eq:
  "startedProcess =
     \<lparr>port = NumericPort (Finite 5051),
      trace = moduleTop @ mainBegin @ mainResume (NumericPort (Finite 5051)) Fulfilled None,
      connecting = False, suspended = [], closeCallbacks = [], exited = None\<rparr>"
  by (simp add: startedProcess_def boot_def default_port step_ConnectSettled perform_def)

lemma startedProcess_reachable: "reachable startedProcess"
  unfolding startedProcess_def by (rule reachable_run) (rule reachable.boot)

lemma startedProcess_registered: "registered h startedProcess"
  by (cases h) (simp_all add: startedProcess_eq registered_def moduleTop_def mainResume_def)

lemma startedProcess_fields:
  "exited startedProcess = None" "port startedProcess = NumericPort (Finite 5051)"
  "suspended startedProcess = []" "closeCallbacks startedProcess = []"
  "connecting startedProcess = False"
  "trace startedProcess = moduleTop @ mainBegin @ mainResume (NumericPort (Finite 5051)) Fulfilled None"
  by (simp_all add: startedProcess_eq)

lemma bindErrorRun_fields:
  "exited bindErrorRun = Some 1"
  "trace bindErrorRun = trace startedProcess @
     [Log LError (AlreadyInUse (Port (NumericPort (Finite 5051)))), Exit 1]"
proof -
  have oe: "onError (NumericPort (Finite 5051)) (listenError ''EADDRINUSE'') =
      ([Log LError (AlreadyInUse (Port (NumericPort (Finite 5051)))), Exit 1], Exits 1)"
    by (simp add: onError_def listenError_def)
  have "bindErrorRun = call (onError (NumericPort (Finite 5051)) (listenError ''EADDRINUSE'')) startedProcess"
    by (simp add: bindErrorRun_def step_ServerError startedProcess_fields startedProcess_registered)
  then have eq: "bindErrorRun =
      (perform [Log LError (AlreadyInUse (Port (NumericPort (Finite 5051)))), Exit 1] startedProcess)
        \<lparr>exited := Some 1\<rparr>"
    by (simp add: oe)
  show "exited bindErrorRun = Some 1" by (simp add: eq)
  show "trace bindErrorRun = trace startedProcess @
     [Log LError (AlreadyInUse (Port (NumericPort (Finite 5051)))), Exit 1]"
    by (simp add: eq perform_def)
qed

text \<open>
  C1, as stated, fails on the bind-error path: with the address in use the process
  exits with code 1, and neither the disconnect nor the close of the listener is ever
  called.
\<close>

theorem bind_error_skips_shutdown:
  "exited bindErrorRun = Some 1 \<and>
   DbDisconnect \<notin> set (trace bindErrorRun) \<and>
   ServerClose \<notin> set (trace bindErrorRun) \<and>
   \<not> precedes ServerClose (Exit 1) (trace bindErrorRun)"
  by (simp add: bindErrorRun_fields startedProcess_fields moduleTop_def mainBegin_def
      mainResume_def)

text \<open>
  C4, as stated, fails for the bind-error listener: \<^verbatim>\<open>server.listen(port)\<close> is
  called before \<^verbatim>\<open>server.on('error', onError)\<close>.
\<close>

theorem error_hook_registered_after_listen:
  "ServerListen (NumericPort (Finite 5051)) \<in> set (trace startedProcess) \<and>
   \<not> precedes (On OnServerError) (ServerListen (NumericPort (Finite 5051))) (trace startedProcess)"
  by (simp add: startedProcess_fields moduleTop_def mainBegin_def mainResume_def)

lemma racingRun_fields:
  "exited racingRun = None"
  "trace racingRun = trace startedProcess @ sigintBegin @ unhandledRejectionBegin someError @
        resume Interrupt Fulfilled @ resume Rejection Fulfilled"
  "closeCallbacks racingRun = [0, 1]"
proof -
  define s1 where "s1 = step Sigint startedProcess"
  define s2 where "s2 = step (UnhandledRejectionEv someError) s1"
  define s3 where "s3 = step (DisconnectSettled 0 Fulfilled) s2"
  define s4 where "s4 = step (DisconnectSettled 0 Fulfilled) s3"
  have r: "racingRun = s4"
    by (simp add: racingRun_def s1_def s2_def s3_def s4_def)
  have e1: "s1 = (perform sigintBegin startedProcess)\<lparr>suspended := [Interrupt]\<rparr>"
    unfolding s1_def
    by (simp add: step_Sigint startedProcess_fields startedProcess_registered)
  have x1: "exited s1 = None"
    by (simp add: e1 perform_def startedProcess_fields)
  have reg1: "registered OnUnhandledRejection s1"
    using startedProcess_registered [of OnUnhandledRejection]
    by (simp add: e1 registered_def perform_def)
  have e2: "s2 = (perform (sigintBegin @ unhandledRejectionBegin someError) startedProcess)
      \<lparr>suspended := [Interrupt, Rejection]\<rparr>"
    unfolding s2_def step_UnhandledRejection [OF x1 reg1]
    by (simp add: e1 perform_def startedProcess_fields)
  have e3: "s3 = (perform (sigintBegin @ unhandledRejectionBegin someError @
        resume Interrupt Fulfilled) startedProcess)
      \<lparr>suspended := [Rejection], closeCallbacks := [0]\<rparr>"
    unfolding s3_def
    by (simp add: step_DisconnectSettled e2 perform_def startedProcess_fields)
  have e4: "s4 = (perform (sigintBegin @ unhandledRejectionBegin someError @
        resume Interrupt Fulfilled @ resume Rejection Fulfilled) startedProcess)
      \<lparr>suspended := [], closeCallbacks := [0, 1]\<rparr>"
    unfolding s4_def
    by (simp add: step_DisconnectSettled e3 perform_def startedProcess_fields)
  show "exited racingRun = None" by (simp add: r e4 perform_def startedProcess_fields)
  show "trace racingRun = trace startedProcess @ sigintBegin @ unhandledRejectionBegin someError @
        resume Interrupt Fulfilled @ resume Rejection Fulfilled"
    by (simp add: r e4 perform_def)
  show "closeCallbacks racingRun = [0, 1]" by (simp add: r e4)
qed

text \<open>
  C2, as stated, fails: an interrupt and an unhandled rejection that race call the
  disconnect twice and close the listener twice.
\<close>

theorem racing_triggers_release_twice:
  "count_list (trace racingRun) DbDisconnect = 2 \<and>
   count_list (trace racingRun) ServerClose = 2 \<and>
   exited racingRun = None"
  by (simp add: racingRun_fields startedProcess_fields segments)

lemma started_registered:
  "reachable st \<Longrightarrow> \<not> connecting st \<Longrightarrow> h \<noteq> OnServerError \<Longrightarrow> h \<noteq> OnServerListening \<Longrightarrow>
     registered h st"
  using reachable_started [of st h] by (simp add: registered_def)

lemma interrupt_path:
  assumes "exited st = None" "registered OnSIGINT st" "suspended st = []" "closeCallbacks st = []"
  shows "exited (run [Sigint, DisconnectSettled 0 r] st) = None"
    and "trace (run [Sigint, DisconnectSettled 0 r, ListenerClosed] st) =
           trace st @ sigintBegin @ resume Interrupt r @ [Exit 0]"
    and "exited (run [Sigint, DisconnectSettled 0 r, ListenerClosed] st) = Some 0"
proof -
  define s1 where "s1 = step Sigint st"
  define s2 where "s2 = step (DisconnectSettled 0 r) s1"
  define s3 where "s3 = step ListenerClosed s2"
  have e1: "s1 = (perform sigintBegin st)\<lparr>suspended := [Interrupt]\<rparr>"
    unfolding s1_def using assms by (simp add: step_Sigint)
  have x1: "exited s1 = None" and l1: "0 < length (suspended s1)"
    using assms(1) by (simp_all add: e1 perform_def)
  have e2: "s2 = (perform (sigintBegin @ resume Interrupt r) st)
      \<lparr>suspended := [], closeCallbacks := [0]\<rparr>"
    unfolding s2_def step_DisconnectSettled [OF x1 l1]
    using assms(4) by (simp add: e1 perform_def)
  have x2: "exited s2 = None" and c2: "closeCallbacks s2 = [0]"
    using assms(1) by (simp_all add: e2 perform_def)
  have e3: "s3 = (perform (sigintBegin @ resume Interrupt r @ [Exit 0]) st)
      \<lparr>suspended := [], closeCallbacks := [], exited := Some 0\<rparr>"
    unfolding s3_def step_ListenerClosed [OF x2 c2]
    by (simp add: e2 perform_def)
  show "exited (run [Sigint, DisconnectSettled 0 r] st) = None"
    using x2 by (simp add: s1_def s2_def)
  show "trace (run [Sigint, DisconnectSettled 0 r, ListenerClosed] st) =
           trace st @ sigintBegin @ resume Interrupt r @ [Exit 0]"
    using e3 by (simp add: s1_def s2_def s3_def perform_def)
  show "exited (run [Sigint, DisconnectSettled 0 r, ListenerClosed] st) = Some 0"
    using e3 by (simp add: s1_def s2_def s3_def)
qed

lemma rejection_path:
  assumes "exited st = None" "registered OnUnhandledRejection st"
    "suspended st = []" "closeCallbacks st = []"
  shows "exited (run [UnhandledRejectionEv e, DisconnectSettled 0 r] st) = None"
    and "trace (run [UnhandledRejectionEv e, DisconnectSettled 0 r, ListenerClosed] st) =
           trace st @ unhandledRejectionBegin e @ resume Rejection r @ [Exit 1]"
    and "exited (run [UnhandledRejectionEv e, DisconnectSettled 0 r, ListenerClosed] st) = Some 1"
proof -
  define s1 where "s1 = step (UnhandledRejectionEv e) st"
  define s2 where "s2 = step (DisconnectSettled 0 r) s1"
  define s3 where "s3 = step ListenerClosed s2"
  have e1: "s1 = (perform (unhandledRejectionBegin e) st)\<lparr>suspended := [Rejection]\<rparr>"
    unfolding s1_def using assms by (simp add: step_UnhandledRejection)
  have x1: "exited s1 = None" and l1: "0 < length (suspended s1)"
    using assms(1) by (simp_all add: e1 perform_def)
  have e2: "s2 = (perform (unhandledRejectionBegin e @ resume Rejection r) st)
      \<lparr>suspended := [], closeCallbacks := [1]\<rparr>"
    unfolding s2_def step_DisconnectSettled [OF x1 l1]
    using assms(4) by (simp add: e1 perform_def)
  have x2: "exited s2 = None" and c2: "closeCallbacks s2 = [1]"
    using assms(1) by (simp_all add: e2 perform_def)
  have e3: "s3 = (perform (unhandledRejectionBegin e @ resume Rejection r @ [Exit 1]) st)
      \<lparr>suspended := [], closeCallbacks := [], exited := Some 1\<rparr>"
    unfolding s3_def step_ListenerClosed [OF x2 c2]
    by (simp add: e2 perform_def)
  show "exited (run [UnhandledRejectionEv e, DisconnectSettled 0 r] st) = None"
    using x2 by (simp add: s1_def s2_def)
  show "trace (run [UnhandledRejectionEv e, DisconnectSettled 0 r, ListenerClosed] st) =
           trace st @ unhandledRejectionBegin e @ resume Rejection r @ [Exit 1]"
    using e3 by (simp add: s1_def s2_def s3_def perform_def)
  show "exited (run [UnhandledRejectionEv e, DisconnectSettled 0 r, ListenerClosed] st) = Some 1"
    using e3 by (simp add: s1_def s2_def s3_def)
qed







text \<open>
  C6. \<^const>\<open>onError\<close> handles an error only when its \<open>syscall\<close> is the listen
  operation: an error with another \<open>syscall\<close> is thrown again at once, and so is a
  listen error whose code is neither EACCES nor EADDRINUSE; only the two codes end
  in an exit of \<^const>\<open>onError\<close>'s own. The error thrown again is handled like any
  uncaught exception.
\<close>

theorem onError_rethrows:
  "(syscall error \<noteq> Some ''listen'' \<longrightarrow> onError p error = ([], Throws error)) \<and>
   (syscall error = Some ''listen'' \<and> code error \<noteq> Some ''EACCES'' \<and>
      code error \<noteq> Some ''EADDRINUSE'' \<longrightarrow> onError p error = ([], Throws error)) \<and>
   (snd (onError p error) \<noteq> Throws error \<longrightarrow>
      syscall error = Some ''listen'' \<and>
      (code error = Some ''EACCES'' \<or> code error = Some ''EADDRINUSE'') \<and>
      snd (onError p error) = Exits 1) \<and>
   (reachable st \<and> exited st = None \<and> registered OnServerError st \<and>
      onError (port st) error = ([], Throws error) \<longrightarrow>
      step (ServerErrorEv error) st = step (UncaughtExceptionEv error) st)"
proof (intro conjI impI)
  assume a: "reachable st \<and> exited st = None \<and> registered OnServerError st \<and>
      onError (port st) error = ([], Throws error)"
  then have "registered OnUncaughtException st"
    using reachable_hook_uncaught [of st] by (simp add: registered_def)
  with a
  show "step (ServerErrorEv error) st = step (UncaughtExceptionEv error) st"
    by (simp add: step_ServerError step_UncaughtException perform_Nil
        uncaughtExceptionHandler_def)
qed (auto simp: onError_def split: if_splits)

theorem onError_rethrows_witness:
  "onError Invalid \<lparr>syscall = Some ''read'', code = Some ''EACCES'', stack = None\<rparr> =
     ([], Throws \<lparr>syscall = Some ''read'', code = Some ''EACCES'', stack = None\<rparr>) \<and>
   onError Invalid (listenError ''EPERM'') = ([], Throws (listenError ''EPERM'')) \<and>
   snd (onError Invalid (listenError ''EACCES'')) = Exits 1 \<and>
   exited (step (ServerErrorEv (listenError ''EPERM'')) startedProcess) = Some 1 \<and>
   step (ServerErrorEv (listenError ''EPERM'')) startedProcess =
     step (UncaughtExceptionEv (listenError ''EPERM'')) startedProcess"
proof -
  let ?r = "\<lparr>syscall = Some ''read'', code = Some ''EACCES'', stack = None\<rparr>"
  have a: "onError Invalid ?r = ([], Throws ?r)"
    using onError_rethrows [of ?r Invalid startedProcess] by simp
  have b: "onError p (listenError ''EPERM'') = ([], Throws (listenError ''EPERM''))" for p
    using onError_rethrows [of "listenError ''EPERM''" p startedProcess]
    by (simp add: listenError_def)
  have c: "snd (onError Invalid (listenError ''EACCES'')) = Exits 1"
    using onError_rethrows [of "listenError ''EACCES''" Invalid startedProcess]
    by (simp add: listenError_def onError_def)
  have d: "step (ServerErrorEv (listenError ''EPERM'')) startedProcess =
     step (UncaughtExceptionEv (listenError ''EPERM'')) startedProcess"
    using onError_rethrows [of "listenError ''EPERM''" Invalid startedProcess] b
    by (simp add: startedProcess_reachable startedProcess_fields startedProcess_registered)
  have e: "exited (step (UncaughtExceptionEv (listenError ''EPERM'')) startedProcess) = Some 1"
    by (simp add: step_UncaughtException startedProcess_fields startedProcess_registered)
  from a b c d e show ?thesis by simp
qed

text \<open>
  C7. The listener of uncaught exceptions logs and exits at once with code 1: it
  calls neither the disconnect nor the close of the listener, in any state the process
  can be in.
\<close>

theorem uncaughtException_exits_immediately:
  assumes "reachable st" and "exited st = None"
  shows "trace (step (UncaughtExceptionEv e) st) =
           trace st @ [Log LError UncaughtBanner, Log LError (UncaughtErr e),
                       Log LError (UncaughtStack (stack e)), ConsoleError e, Exit 1] \<and>
         exited (step (UncaughtExceptionEv e) st) = Some 1 \<and>
         suspended (step (UncaughtExceptionEv e) st) = suspended st \<and>
         closeCallbacks (step (UncaughtExceptionEv e) st) = closeCallbacks st \<and>
         count_list (trace (step (UncaughtExceptionEv e) st)) DbDisconnect =
           count_list (trace st) DbDisconnect \<and>
         count_list (trace (step (UncaughtExceptionEv e) st)) ServerClose =
           count_list (trace st) ServerClose"
proof -
  have "registered OnUncaughtException st"
    using reachable_hook_uncaught [OF assms(1)] by (simp add: registered_def)
  with assms(2) show ?thesis
    by (simp add: step_UncaughtException perform_def uncaughtExceptionHandler_def)
qed

theorem uncaughtException_exits_immediately_witness:
  "reachable startedProcess \<and> exited startedProcess = None \<and>
   exited (step (UncaughtExceptionEv someError) startedProcess) = Some 1 \<and>
   DbDisconnect \<notin> set (trace (step (UncaughtExceptionEv someError) startedProcess)) \<and>
   ServerClose \<notin> set (trace (step (UncaughtExceptionEv someError) startedProcess))"
proof -
  have h: "reachable startedProcess" "exited startedProcess = None"
    by (simp_all add: startedProcess_reachable startedProcess_fields)
  from uncaughtException_exits_immediately [OF h, of someError] h
  show ?thesis by (simp add: startedProcess_fields moduleTop_def mainBegin_def mainResume_def)
qed

lemma boot_fields:
  "exited (boot env) = None" "connecting (boot env)"
  "trace (boot env) = moduleTop @ mainBegin" "suspended (boot env) = []"
  "closeCallbacks (boot env) = []"
  by (simp_all add: boot_def)

lemma mainResume_rejected:
  "mainResume p (Rejected e) l = Log LError (ErrorWhileConnecting e) # tl (mainResume p Fulfilled l)"
  by (simp add: mainResume_def)

text \<open>
  C8. A failed connect at startup is not fatal: for any error, the error is logged,
  the rest of the startup is the same as after a successful connect, and the bind is
  attempted. When \<^verbatim>\<open>server.listen\<close> returns, which it can for every port but those
  the runtime rejects, the process keeps running with its listeners registered and
  the listening event that reports a successful bind is handled. When it throws, the
  process keeps running too, and the error goes to the unhandled-rejection listener.
\<close>

theorem connect_failure_not_fatal:
  "mainResume p (Rejected e) l =
     Log LError (ErrorWhileConnecting e) # tl (mainResume p Fulfilled l) \<and>
   ServerListen p \<in> set (tl (mainResume p Fulfilled l)) \<and>
   precedes (Log LError (ErrorWhileConnecting e)) (ServerListen p) (mainResume p (Rejected e) l) \<and>
   (\<not> listenRejects (port (boot env)) \<longrightarrow>
      trace (step (ConnectSettled (Rejected e) None) (boot env)) =
        trace (boot env) @ mainResume (port (boot env)) (Rejected e) None \<and>
      exited (step (ConnectSettled (Rejected e) None) (boot env)) = None \<and>
      registered OnServerError (step (ConnectSettled (Rejected e) None) (boot env)) \<and>
      trace (run [ConnectSettled (Rejected e) None, ServerListeningEv] (boot env)) =
        trace (step (ConnectSettled (Rejected e) None) (boot env)) @
          [Log LInfo (ListeningOn (port (boot env))), Debug (port (boot env))] \<and>
      exited (run [ConnectSettled (Rejected e) None, ServerListeningEv] (boot env)) = None) \<and>
   trace (step (ConnectSettled (Rejected e) (Some x)) (boot env)) =
     trace (boot env) @ mainResume (port (boot env)) (Rejected e) (Some x) @
       unhandledRejectionBegin x \<and>
   exited (step (ConnectSettled (Rejected e) (Some x)) (boot env)) = None \<and>
   \<not> registered OnServerError (step (ConnectSettled (Rejected e) (Some x)) (boot env))"
proof -
  let ?s = "step (ConnectSettled (Rejected e) None) (boot env)"
  let ?t = "step (ConnectSettled (Rejected e) (Some x)) (boot env)"
  have 1: "mainResume p (Rejected e) l =
     Log LError (ErrorWhileConnecting e) # tl (mainResume p Fulfilled l)"
    by (rule mainResume_rejected)
  have 2: "ServerListen p \<in> set (tl (mainResume p Fulfilled l))"
    by (simp add: mainResume_def)
  have 3: "precedes (Log LError (ErrorWhileConnecting e)) (ServerListen p)
      (mainResume p (Rejected e) l)"
    by (simp add: mainResume_def)
  have 4: "\<not> listenRejects (port (boot env)) \<longrightarrow>
      trace ?s = trace (boot env) @ mainResume (port (boot env)) (Rejected e) None \<and>
      exited ?s = None \<and> registered OnServerError ?s \<and>
      trace (run [ConnectSettled (Rejected e) None, ServerListeningEv] (boot env)) =
        trace ?s @ [Log LInfo (ListeningOn (port (boot env))), Debug (port (boot env))] \<and>
      exited (run [ConnectSettled (Rejected e) None, ServerListeningEv] (boot env)) = None"
  proof (intro impI)
    assume nr: "\<not> listenRejects (port (boot env))"
    have s: "?s = (perform (mainResume (port (boot env)) (Rejected e) None) (boot env))
        \<lparr>connecting := False\<rparr>"
      using nr by (simp add: step_ConnectSettled boot_fields)
    have x: "exited ?s = None" by (simp add: s perform_def boot_fields)
    have p: "port ?s = port (boot env)" by (rule step_port)
    have reg: "registered OnServerListening ?s" "registered OnServerError ?s"
      by (simp_all add: s registered_def perform_def mainResume_def)
    have l: "step ServerListeningEv ?s = perform (fst (onListening (port (boot env)))) ?s"
      using step_ServerListening [OF x reg(1)] by (simp add: p)
    show "trace ?s = trace (boot env) @ mainResume (port (boot env)) (Rejected e) None \<and>
      exited ?s = None \<and> registered OnServerError ?s \<and>
      trace (run [ConnectSettled (Rejected e) None, ServerListeningEv] (boot env)) =
        trace ?s @ [Log LInfo (ListeningOn (port (boot env))), Debug (port (boot env))] \<and>
      exited (run [ConnectSettled (Rejected e) None, ServerListeningEv] (boot env)) = None"
      using x reg(2) by (simp add: l) (simp add: s perform_def onListening_def)
  qed
  have t: "?t = (perform (mainResume (port (boot env)) (Rejected e) (Some x) @
        unhandledRejectionBegin x) (boot env))
      \<lparr>connecting := False, suspended := suspended (boot env) @ [Rejection]\<rparr>"
    by (simp add: step_ConnectThrows boot_fields)
  have 5: "trace ?t = trace (boot env) @ mainResume (port (boot env)) (Rejected e) (Some x) @
       unhandledRejectionBegin x"
    by (simp add: t perform_def)
  have 6: "exited ?t = None" by (simp add: t perform_def boot_fields)
  have 7: "\<not> registered OnServerError ?t"
    by (simp add: t perform_def registered_def boot_fields segments)
  from 1 2 3 4 5 6 7 show ?thesis by (intro conjI)
qed

theorem connect_failure_not_fatal_witness:
  "\<not> listenRejects (port (boot (Some (str ''8080'')))) \<and>
   exited (step (ConnectSettled (Rejected someError) None) (boot (Some (str ''8080'')))) = None \<and>
   Log LError (ErrorWhileConnecting someError) \<in>
     set (trace (step (ConnectSettled (Rejected someError) None) (boot (Some (str ''8080''))))) \<and>
   ServerListen (NumericPort (Finite 8080)) \<in>
     set (trace (step (ConnectSettled (Rejected someError) None) (boot (Some (str ''8080''))))) \<and>
   last (trace (run [ConnectSettled (Rejected someError) None, ServerListeningEv]
     (boot (Some (str ''8080''))))) = Debug (NumericPort (Finite 8080))"
proof -
  have m: "mathInt10 (str ''8080'') = Some 8080" by (simp add: port_eval)
  have p: "port (boot (Some (str ''8080''))) = NumericPort (Finite 8080)"
    using m by (simp add: boot_def configuredPort_def normalizePort_parsed toNumber_exact str_def)
  have h: "\<not> listenRejects (port (boot (Some (str ''8080''))))" by (simp add: p)
  note t = connect_failure_not_fatal
    [of "NumericPort (Finite 8080)" someError None "Some (str ''8080'')" someError]
  from t h have a: "trace (step (ConnectSettled (Rejected someError) None)
        (boot (Some (str ''8080'')))) =
      trace (boot (Some (str ''8080''))) @
        mainResume (NumericPort (Finite 8080)) (Rejected someError) None"
    and b: "exited (step (ConnectSettled (Rejected someError) None)
        (boot (Some (str ''8080'')))) = None"
    and c: "trace (run [ConnectSettled (Rejected someError) None, ServerListeningEv]
        (boot (Some (str ''8080'')))) =
      trace (step (ConnectSettled (Rejected someError) None) (boot (Some (str ''8080'')))) @
        [Log LInfo (ListeningOn (NumericPort (Finite 8080))), Debug (NumericPort (Finite 8080))]"
    unfolding p by blast+
  from h a b c show ?thesis by (simp add: mainResume_def)
qed

lemma closeAll_rejected:
  "closeAllExternalServicesResume (Rejected d) = [Log LError (ErrorWhileDisconnecting d)]"
  by (simp add: closeAllExternalServicesResume_def)

lemma resume_rejected:
  "resume t (Rejected d) = Log LError (ErrorWhileDisconnecting d) # tl (resume t Fulfilled)"
  by (cases t) (simp_all add: closeAllExternalServicesResume_def)

text \<open>
  C9. A failed disconnect during shutdown is not fatal: for any error, the error is
  logged, the listener is closed all the same, and the process exits with the code of
  its trigger.
\<close>

theorem disconnect_failure_not_fatal:
  assumes "reachable st" and "exited st = None" and "\<not> connecting st"
    and "suspended st = []" and "closeCallbacks st = []"
  shows "trace (run [Sigint, DisconnectSettled 0 (Rejected d), ListenerClosed] st) =
           trace st @ sigintBegin @
             [Log LError (ErrorWhileDisconnecting d), Log LWarn ProcessTerminated,
              ServerClose, Exit 0] \<and>
         exited (run [Sigint, DisconnectSettled 0 (Rejected d), ListenerClosed] st) = Some 0 \<and>
         trace (run [UnhandledRejectionEv e, DisconnectSettled 0 (Rejected d), ListenerClosed] st) =
           trace st @ unhandledRejectionBegin e @
             [Log LError (ErrorWhileDisconnecting d), ServerClose, Exit 1] \<and>
         exited (run [UnhandledRejectionEv e, DisconnectSettled 0 (Rejected d), ListenerClosed] st)
           = Some 1 \<and>
         (\<forall>t. resume t (Rejected d) =
            Log LError (ErrorWhileDisconnecting d) # tl (resume t Fulfilled))"
proof -
  have reg: "registered OnSIGINT st" "registered OnUnhandledRejection st"
    using assms(1,3) by (simp_all add: started_registered)
  have a: "trace (run [Sigint, DisconnectSettled 0 (Rejected d), ListenerClosed] st) =
           trace st @ sigintBegin @
             [Log LError (ErrorWhileDisconnecting d), Log LWarn ProcessTerminated,
              ServerClose, Exit 0]"
    using interrupt_path(2) [OF assms(2) reg(1) assms(4,5), of "Rejected d"]
    by (simp add: closeAll_rejected)
  have b: "exited (run [Sigint, DisconnectSettled 0 (Rejected d), ListenerClosed] st) = Some 0"
    by (rule interrupt_path(3) [OF assms(2) reg(1) assms(4,5)])
  have c: "trace (run [UnhandledRejectionEv e, DisconnectSettled 0 (Rejected d),
             ListenerClosed] st) =
           trace st @ unhandledRejectionBegin e @
             [Log LError (ErrorWhileDisconnecting d), ServerClose, Exit 1]"
    using rejection_path(2) [OF assms(2) reg(2) assms(4,5), of e "Rejected d"]
    by (simp add: closeAll_rejected)
  have d: "exited (run [UnhandledRejectionEv e, DisconnectSettled 0 (Rejected d),
             ListenerClosed] st) = Some 1"
    by (rule rejection_path(3) [OF assms(2) reg(2) assms(4,5)])
  have f: "\<forall>t. resume t (Rejected d) =
      Log LError (ErrorWhileDisconnecting d) # tl (resume t Fulfilled)"
    by (simp add: resume_rejected)
  from a b c d f show ?thesis by (intro conjI)
qed

theorem disconnect_failure_not_fatal_witness:
  "reachable startedProcess \<and> exited startedProcess = None \<and>
   \<not> connecting startedProcess \<and> suspended startedProcess = [] \<and>
   closeCallbacks startedProcess = [] \<and>
   exited (run [Sigint, DisconnectSettled 0 (Rejected someError), ListenerClosed]
             startedProcess) = Some 0 \<and>
   exited (run [UnhandledRejectionEv someError, DisconnectSettled 0 (Rejected someError),
                ListenerClosed] startedProcess) = Some 1 \<and>
   ServerClose \<in> set (trace (run [Sigint, DisconnectSettled 0 (Rejected someError),
                ListenerClosed] startedProcess))"
proof -
  have h: "reachable startedProcess" "exited startedProcess = None"
    "\<not> connecting startedProcess" "suspended startedProcess = []"
    "closeCallbacks startedProcess = []"
    by (simp_all add: startedProcess_reachable startedProcess_fields)
  from disconnect_failure_not_fatal [OF h, of someError someError] h
  show ?thesis by simp
qed

lemma listener_steps_keep_running:
  "exited (step Sigint st) = exited st"
  "exited (step (UnhandledRejectionEv e) st) = exited st"
  "exited (step (DisconnectSettled i r) st) = exited st"
proof -
  show "exited (step Sigint st) = exited st"
    by (cases "exited st = None"; cases "registered OnSIGINT st")
      (simp_all add: step_def perform_def)
  show "exited (step (UnhandledRejectionEv e) st) = exited st"
    by (cases "exited st = None"; cases "registered OnUnhandledRejection st")
      (simp_all add: step_def perform_def unhandledRejectionListener_def)
  show "exited (step (DisconnectSettled i r) st) = exited st"
    by (cases "exited st = None"; cases "i < length (suspended st)")
      (simp_all add: step_def perform_def)
qed

lemma closed_exit:
  assumes "exited st = None" and "exited (step ListenerClosed st) = Some c"
  shows "closeCallbacks st \<noteq> [] \<and> trace (step ListenerClosed st) = trace st @ [Exit c]"
  using assms by (cases "closeCallbacks st") (simp_all add: step_def perform_def)

lemma call_onError_no_release:
  "count_list (trace (call (onError p b) st)) DbDisconnect = count_list (trace st) DbDisconnect"
  "count_list (trace (call (onError p b) st)) ServerClose = count_list (trace st) ServerClose"
  using onError_cases [of p b]
  by (auto simp: perform_def uncaughtExceptionHandler_def)

lemma bind_error_no_release:
  "count_list (trace (step (ServerErrorEv b) st)) DbDisconnect = count_list (trace st) DbDisconnect"
  "count_list (trace (step (ServerErrorEv b) st)) ServerClose = count_list (trace st) ServerClose"
proof -
  have "step (ServerErrorEv b) st = st \<or> step (ServerErrorEv b) st = call (onError (port st) b) st"
    by (cases "exited st = None"; cases "registered OnServerError st") (simp_all add: step_def)
  then show
    "count_list (trace (step (ServerErrorEv b) st)) DbDisconnect = count_list (trace st) DbDisconnect"
    "count_list (trace (step (ServerErrorEv b) st)) ServerClose = count_list (trace st) ServerClose"
    using call_onError_no_release [of "port st" b st] by auto
qed

text \<open>
  C1, amended. In the paths of the unhandled-fault and operator-interrupt triggers
  the disconnect is attempted before the listener is closed, and the process exits
  only in the callback that runs when the listener has closed: the two listeners and
  the settling of a disconnect never exit by themselves. The bind-error path calls
  neither the disconnect nor the close.
\<close>

theorem shutdown_order:
  assumes "reachable st"
  shows "precedes DbDisconnect ServerClose (trace st) \<and>
         precedes ServerClose (Exit 0) (trace st) \<and>
         exited (step Sigint st) = exited st \<and>
         exited (step (UnhandledRejectionEv e) st) = exited st \<and>
         exited (step (DisconnectSettled i r) st) = exited st \<and>
         (exited st = None \<and> exited (step ListenerClosed st) = Some c \<longrightarrow>
            ServerClose \<in> set (trace st) \<and> DbDisconnect \<in> set (trace st) \<and>
            trace (step ListenerClosed st) = trace st @ [Exit c]) \<and>
         count_list (trace (step (ServerErrorEv b) st)) DbDisconnect =
           count_list (trace st) DbDisconnect \<and>
         count_list (trace (step (ServerErrorEv b) st)) ServerClose =
           count_list (trace st) ServerClose"
proof -
  have 1: "precedes DbDisconnect ServerClose (trace st)"
    using reachable_disconnect_first [OF assms] by simp
  have 2: "precedes ServerClose (Exit 0) (trace st)"
    using reachable_close_first [OF assms] by simp
  have 3: "exited st = None \<and> exited (step ListenerClosed st) = Some c \<longrightarrow>
            ServerClose \<in> set (trace st) \<and> DbDisconnect \<in> set (trace st) \<and>
            trace (step ListenerClosed st) = trace st @ [Exit c]"
  proof
    assume a: "exited st = None \<and> exited (step ListenerClosed st) = Some c"
    then have ce: "closeCallbacks st \<noteq> []"
      and tr: "trace (step ListenerClosed st) = trace st @ [Exit c]"
      using closed_exit [of st c] by simp_all
    from ce have sc: "ServerClose \<in> set (trace st)"
      using reachable_close_first [OF assms] by simp
    then obtain pre post where "trace st = pre @ ServerClose # post"
      by (auto simp: in_set_conv_decomp)
    with 1 have "DbDisconnect \<in> set pre"
      using precedes_splitD [of DbDisconnect ServerClose pre post] by simp
    with \<open>trace st = pre @ ServerClose # post\<close> have "DbDisconnect \<in> set (trace st)" by simp
    with sc tr show "ServerClose \<in> set (trace st) \<and> DbDisconnect \<in> set (trace st) \<and>
            trace (step ListenerClosed st) = trace st @ [Exit c]" by simp
  qed
  from 1 2 3 listener_steps_keep_running [where st = st] bind_error_no_release [where st = st]
  show ?thesis by (intro conjI)
qed

lemma interrupted_fields:
  "reachable (run [Sigint, DisconnectSettled 0 Fulfilled] startedProcess)"
  "exited (run [Sigint, DisconnectSettled 0 Fulfilled] startedProcess) = None"
  "exited (step ListenerClosed (run [Sigint, DisconnectSettled 0 Fulfilled] startedProcess)) = Some 0"
proof -
  have h: "exited startedProcess = None" "registered OnSIGINT startedProcess"
    "suspended startedProcess = []" "closeCallbacks startedProcess = []"
    by (simp_all add: startedProcess_fields startedProcess_registered)
  show "reachable (run [Sigint, DisconnectSettled 0 Fulfilled] startedProcess)"
    by (rule reachable_run) (rule startedProcess_reachable)
  show "exited (run [Sigint, DisconnectSettled 0 Fulfilled] startedProcess) = None"
    by (rule interrupt_path(1) [OF h])
  show "exited (step ListenerClosed (run [Sigint, DisconnectSettled 0 Fulfilled] startedProcess))
      = Some 0"
    using interrupt_path(3) [OF h, of Fulfilled] by simp
qed

theorem shutdown_order_witness:
  "reachable (run [Sigint, DisconnectSettled 0 Fulfilled] startedProcess) \<and>
   exited (run [Sigint, DisconnectSettled 0 Fulfilled] startedProcess) = None \<and>
   exited (step ListenerClosed (run [Sigint, DisconnectSettled 0 Fulfilled] startedProcess))
     = Some 0 \<and>
   ServerClose \<in> set (trace (run [Sigint, DisconnectSettled 0 Fulfilled] startedProcess)) \<and>
   DbDisconnect \<in> set (trace (run [Sigint, DisconnectSettled 0 Fulfilled] startedProcess)) \<and>
   precedes DbDisconnect ServerClose
     (trace (run [Sigint, DisconnectSettled 0 Fulfilled] startedProcess))"
proof -
  let ?st = "run [Sigint, DisconnectSettled 0 Fulfilled] startedProcess"
  note t = shutdown_order [OF interrupted_fields(1), of someError 0 Fulfilled 0 someError]
  from t have p: "precedes DbDisconnect ServerClose (trace ?st)" by (rule conjunct1)
  from t have "exited ?st = None \<and> exited (step ListenerClosed ?st) = Some 0 \<longrightarrow>
      ServerClose \<in> set (trace ?st) \<and> DbDisconnect \<in> set (trace ?st) \<and>
      trace (step ListenerClosed ?st) = trace ?st @ [Exit 0]"
    by (elim conjE)
  with interrupted_fields(2,3)
  have "ServerClose \<in> set (trace ?st) \<and> DbDisconnect \<in> set (trace ?st)" by blast
  with p interrupted_fields show ?thesis by (intro conjI) simp_all
qed

text \<open>
  C2, amended. There is no guard: every call of the unhandled-fault or
  operator-interrupt listener attempts the disconnect once more, and every attempt
  that settles closes the listener once more. While the process runs, the close calls
  are as many as the settled attempts, and each has left one callback.
\<close>

theorem each_invocation_releases_once:
  assumes "reachable st" and "exited st = None" and "\<not> connecting st"
  shows "count_list (trace (step Sigint st)) DbDisconnect =
           count_list (trace st) DbDisconnect + 1 \<and>
         count_list (trace (step (UnhandledRejectionEv e) st)) DbDisconnect =
           count_list (trace st) DbDisconnect + 1 \<and>
         (i < length (suspended st) \<longrightarrow>
            count_list (trace (step (DisconnectSettled i r) st)) ServerClose =
              count_list (trace st) ServerClose + 1 \<and>
            length (suspended (step (DisconnectSettled i r) st)) + 1 = length (suspended st)) \<and>
         length (suspended (step Sigint st)) = length (suspended st) + 1 \<and>
         length (suspended (step (UnhandledRejectionEv e) st)) = length (suspended st) + 1 \<and>
         count_list (trace st) DbDisconnect =
           length (suspended st) + count_list (trace st) ServerClose \<and>
         length (closeCallbacks st) = count_list (trace st) ServerClose"
proof -
  have reg: "registered OnSIGINT st" "registered OnUnhandledRejection st"
    using assms(1,3) by (simp_all add: started_registered)
  have 1: "count_list (trace (step Sigint st)) DbDisconnect =
           count_list (trace st) DbDisconnect + 1"
    and 4: "length (suspended (step Sigint st)) = length (suspended st) + 1"
    by (simp_all add: step_Sigint [OF assms(2) reg(1)] perform_def sigintBegin_def
        closeAllExternalServicesBegin_def)
  have 2: "count_list (trace (step (UnhandledRejectionEv e) st)) DbDisconnect =
           count_list (trace st) DbDisconnect + 1"
    and 5: "length (suspended (step (UnhandledRejectionEv e) st)) = length (suspended st) + 1"
    by (simp_all add: step_UnhandledRejection [OF assms(2) reg(2)] perform_def
        unhandledRejectionBegin_def closeAllExternalServicesBegin_def)
  have 3: "i < length (suspended st) \<longrightarrow>
            count_list (trace (step (DisconnectSettled i r) st)) ServerClose =
              count_list (trace st) ServerClose + 1 \<and>
            length (suspended (step (DisconnectSettled i r) st)) + 1 = length (suspended st)"
  proof
    assume i: "i < length (suspended st)"
    show "count_list (trace (step (DisconnectSettled i r) st)) ServerClose =
              count_list (trace st) ServerClose + 1 \<and>
            length (suspended (step (DisconnectSettled i r) st)) + 1 = length (suspended st)"
      using length_remove_nth [OF i]
      by (simp add: step_DisconnectSettled [OF assms(2) i] perform_def resume_count)
  qed
  have 6: "count_list (trace st) DbDisconnect =
           length (suspended st) + count_list (trace st) ServerClose"
    by (rule reachable_counts [OF assms(1)])
  have 7: "length (closeCallbacks st) = count_list (trace st) ServerClose"
    using reachable_running [OF assms(1,2)] by simp
  from 1 2 3 4 5 6 7 show ?thesis by (intro conjI)
qed

theorem each_invocation_releases_once_witness:
  "reachable (step Sigint startedProcess) \<and> exited (step Sigint startedProcess) = None \<and>
   \<not> connecting (step Sigint startedProcess) \<and>
   count_list (trace (step Sigint startedProcess)) DbDisconnect = 1 \<and>
   count_list (trace (step Sigint (step Sigint startedProcess))) DbDisconnect = 2 \<and>
   0 < length (suspended (step Sigint startedProcess)) \<and>
   count_list (trace (step (DisconnectSettled 0 Fulfilled) (step Sigint startedProcess)))
     ServerClose = 1"
proof -
  let ?s = "step Sigint startedProcess"
  have e: "?s = (perform sigintBegin startedProcess)\<lparr>suspended := [Interrupt]\<rparr>"
    by (simp add: step_Sigint startedProcess_fields startedProcess_registered)
  have h1: "reachable ?s"
    by (rule reachable.step) (rule startedProcess_reachable)
  have h2: "exited ?s = None" "\<not> connecting ?s"
    by (simp_all add: e perform_def startedProcess_fields)
  note h = h1 h2
  have l: "0 < length (suspended ?s)" by (simp add: e)
  have c1: "count_list (trace ?s) DbDisconnect = 1"
    by (simp add: e perform_def startedProcess_fields segments)
  have c0: "count_list (trace ?s) ServerClose = 0"
    by (simp add: e perform_def startedProcess_fields segments)
  from each_invocation_releases_once [OF h, of someError 0 Fulfilled] h l c1 c0
  show ?thesis by simp
qed

lemma reachable_rejection_handled:
  "reachable st \<Longrightarrow> MainRejects x \<in> set (trace st) \<Longrightarrow>
     Log LError (RejectionErr x) \<in> set (trace st)"
proof (induction rule: reachable.induct)
  case (boot env)
  then show ?case by (simp add: boot_def segments)
next
  case (step st ev)
  have waiting: "connecting st \<Longrightarrow> \<forall>x. MainRejects x \<notin> set (trace st)"
    using reachable_connecting [OF step.hyps] by simp
  show ?case
    by (rule step_cases [of ev st])
      (use step waiting in
        \<open>auto simp: perform_def segments resume_set split: outcome.splits\<close>)
qed

lemma badPortRun_fields:
  "reachable badPortRun"
  "trace badPortRun = trace (boot (Some (str ''70000''))) @
     mainResume (NumericPort (Finite 70000)) Fulfilled (Some badPortError) @
     unhandledRejectionBegin badPortError"
  "port badPortRun = NumericPort (Finite 70000)"
proof -
  have m: "mathInt10 (str ''70000'') = Some 70000" by (simp add: port_eval)
  have p: "port (boot (Some (str ''70000''))) = NumericPort (Finite 70000)"
    using m by (simp add: boot_def configuredPort_def normalizePort_parsed toNumber_exact str_def)
  show "reachable badPortRun"
    unfolding badPortRun_def by (rule reachable_run) (rule reachable.boot)
  show "trace badPortRun = trace (boot (Some (str ''70000''))) @
     mainResume (NumericPort (Finite 70000)) Fulfilled (Some badPortError) @
     unhandledRejectionBegin badPortError"
    by (simp add: badPortRun_def step_ConnectThrows boot_fields perform_def p)
  show "port badPortRun = NumericPort (Finite 70000)"
    by (simp add: badPortRun_def step_port p)
qed

text \<open>
  C4, amended. The unhandled-fault and operator-interrupt listeners are registered
  before \<^verbatim>\<open>server.listen\<close> is called; the bind-error listener is registered after
  that call has returned, in the same run of synchronous code, so in every state in
  which the runtime can dispatch an event after a bind that was initiated all three
  are registered. When \<^verbatim>\<open>server.listen\<close> throws instead, as it does for a port the
  runtime rejects, the bind-error listener is never registered, and the error is
  handled by the unhandled-fault listener.
\<close>

theorem triggers_registered_when_dispatching:
  assumes "reachable st"
  shows "precedes (On OnUnhandledRejection) (ServerListen p) (trace st) \<and>
         precedes (On OnSIGINT) (ServerListen p) (trace st) \<and>
         precedes (ServerListen (port st)) (On OnServerError) (trace st) \<and>
         (ServerListen p \<in> set (trace st) \<longrightarrow>
            registered OnUnhandledRejection st \<and> registered OnSIGINT st) \<and>
         (ServerListen p \<in> set (trace st) \<and> (\<forall>x. MainRejects x \<notin> set (trace st)) \<longrightarrow>
            registered OnServerError st) \<and>
         (MainRejects x \<in> set (trace st) \<longrightarrow>
            \<not> registered OnServerError st \<and> registered OnUnhandledRejection st \<and>
            Log LError (RejectionErr x) \<in> set (trace st))"
proof -
  have 1: "precedes (On OnUnhandledRejection) (ServerListen p) (trace st)"
    and 2: "precedes (On OnSIGINT) (ServerListen p) (trace st)"
    using reachable_registered_first [OF assms, of p] by simp_all
  have 3: "precedes (ServerListen (port st)) (On OnServerError) (trace st)"
    by (rule reachable_listen_before_error_hook [OF assms])
  have started: "\<not> connecting st" if "ServerListen q \<in> set (trace st)" for q
  proof
    assume "connecting st"
    with reachable_connecting [OF assms] that show False by simp
  qed
  have 4: "ServerListen p \<in> set (trace st) \<longrightarrow>
            registered OnUnhandledRejection st \<and> registered OnSIGINT st"
    using started [of p] assms by (simp add: started_registered)
  have 5: "ServerListen p \<in> set (trace st) \<and> (\<forall>x. MainRejects x \<notin> set (trace st)) \<longrightarrow>
            registered OnServerError st"
    using started [of p] reachable_listening [OF assms] by (simp add: registered_def)
  have 6: "MainRejects x \<in> set (trace st) \<longrightarrow>
            \<not> registered OnServerError st \<and> registered OnUnhandledRejection st \<and>
            Log LError (RejectionErr x) \<in> set (trace st)"
  proof
    assume r: "MainRejects x \<in> set (trace st)"
    have "\<not> connecting st"
    proof
      assume "connecting st"
      with reachable_connecting [OF assms] r show False by simp
    qed
    with assms have "registered OnUnhandledRejection st" by (simp add: started_registered)
    with reachable_rejected [OF assms r] reachable_rejection_handled [OF assms r]
    show "\<not> registered OnServerError st \<and> registered OnUnhandledRejection st \<and>
            Log LError (RejectionErr x) \<in> set (trace st)"
      by (simp add: registered_def)
  qed
  from 1 2 3 4 5 6 show ?thesis by (intro conjI)
qed

theorem triggers_registered_when_dispatching_witness:
  "reachable startedProcess \<and>
   ServerListen (NumericPort (Finite 5051)) \<in> set (trace startedProcess) \<and>
   (\<forall>x. MainRejects x \<notin> set (trace startedProcess)) \<and>
   registered OnServerError startedProcess \<and>
   registered OnUnhandledRejection startedProcess \<and>
   registered OnSIGINT startedProcess \<and>
   precedes (On OnSIGINT) (ServerListen (NumericPort (Finite 5051))) (trace startedProcess) \<and>
   reachable badPortRun \<and> MainRejects badPortError \<in> set (trace badPortRun) \<and>
   \<not> registered OnServerError badPortRun \<and>
   Log LError (RejectionErr badPortError) \<in> set (trace badPortRun)"
proof -
  have l: "ServerListen (NumericPort (Finite 5051)) \<in> set (trace startedProcess)"
    and n: "\<forall>x. MainRejects x \<notin> set (trace startedProcess)"
    by (simp_all add: startedProcess_fields segments)
  have b: "MainRejects badPortError \<in> set (trace badPortRun)"
    by (simp add: badPortRun_fields mainResume_def)
  from triggers_registered_when_dispatching
    [OF startedProcess_reachable, of "NumericPort (Finite 5051)" badPortError]
    l n startedProcess_reachable
  have 1: "reachable startedProcess \<and>
   ServerListen (NumericPort (Finite 5051)) \<in> set (trace startedProcess) \<and>
   (\<forall>x. MainRejects x \<notin> set (trace startedProcess)) \<and>
   registered OnServerError startedProcess \<and>
   registered OnUnhandledRejection startedProcess \<and>
   registered OnSIGINT startedProcess \<and>
   precedes (On OnSIGINT) (ServerListen (NumericPort (Finite 5051))) (trace startedProcess)"
    by simp
  from triggers_registered_when_dispatching
    [OF badPortRun_fields(1), of "NumericPort (Finite 70000)" badPortError] b
  have 2: "\<not> registered OnServerError badPortRun \<and>
   Log LError (RejectionErr badPortError) \<in> set (trace badPortRun)"
    by simp
  from 1 2 b badPortRun_fields(1) show ?thesis by simp
qed

end
